theory Spec2Isabelle
  imports Complex_Main
begin

section \<open>Data model of the matching engine (src/Main\_File.py)\<close>

text \<open>
  The engine of \<^verbatim>\<open>Main_File.py\<close> keeps three pieces of global state: the in-memory
  \<^verbatim>\<open>order_books\<close> (symbol to a pair of \<^verbatim>\<open>SortedDict\<close>s of deques), and the two MongoDB
  collections \<^verbatim>\<open>orders_collection\<close> and \<^verbatim>\<open>trades_collection\<close>. The embedding passes this
  state explicitly. Quantities and prices are Python floats in the source. The functions
  are embedded twice: first on exact rationals, which is the quantity model the
  specification assumes (exact decimals) and has neither rounding nor NaN; then, under
  the names ending in \<open>_f\<close>, on binary64 floats as CPython computes with them.
  Values produced by the environment are treated as follows: the identifier
  \<^verbatim>\<open>ORDER-<uuid4>\<close> of a submission is a parameter of \<open>submit_order\<close>; the fields
  \<^verbatim>\<open>trade_id\<close> and \<^verbatim>\<open>timestamp\<close>, which no code path reads, are left out of the records;
  the WebSocket broadcast has no effect on the engine state and is left out.
\<close>

datatype error = HTTPException nat string | IndexError | KeyError | ValueError

text \<open>
  The request bodies \<^verbatim>\<open>OrderIn\<close> and \<^verbatim>\<open>CancelOrder\<close>. The fields carry the prefixes
  \<open>in_\<close> and \<open>c_\<close> so that the source's local variables \<^verbatim>\<open>symbol\<close>, \<^verbatim>\<open>side\<close>,
  \<^verbatim>\<open>price\<close> and \<^verbatim>\<open>order_id\<close> keep their names in the functions below.
\<close>

record OrderIn =
  in_symbol :: string
  in_order_type :: string
  in_side :: string
  in_quantity :: rat
  in_price :: "rat option"

record CancelOrder =
  c_order_id :: string

record user =
  username :: string
  hashed_password :: string

text \<open>An element of a price level's deque: \<^verbatim>\<open>{"order_id": ..., "quantity": ...}\<close>.\<close>

record entry =
  e_order_id :: string
  e_quantity :: rat

text \<open>A document of \<^verbatim>\<open>trades_collection\<close>, also the element of \<^verbatim>\<open>trades_executed\<close>.\<close>

record trade =
  t_symbol :: string
  t_price :: rat
  t_quantity :: rat
  maker_order_id :: string
  taker_order_id :: string
  aggressor_side :: string

text \<open>A document of \<^verbatim>\<open>orders_collection\<close>.\<close>

record order_doc =
  d_order_id :: string
  d_symbol :: string
  d_user :: string
  d_side :: string
  d_type :: string
  d_quantity :: rat
  d_price :: "rat option"
  d_status :: string

text \<open>
  A \<^verbatim>\<open>SortedDict\<close> from price to deque is a list of (price, queue) pairs kept in ascending
  order of price; \<^verbatim>\<open>peekitem(0)\<close> is its head and \<^verbatim>\<open>peekitem(-1)\<close> its last element.
  This is the \<^verbatim>\<open>SortedDict\<close> of keys that are numbers; the key list of the library, which a
  NaN key puts out of order, is embedded with the floats further down.
\<close>

type_synonym side_book = "(rat \<times> entry list) list"

record book =
  bids :: side_book
  asks :: side_book

record engine =
  order_books :: "string \<rightharpoonup> book"
  orders_collection :: "order_doc list"
  trades_collection :: "trade list"

text \<open>The values of the dictionaries returned by the two endpoints.\<close>

datatype jval = JStr string | JBool bool | JTrades "trade list"

type_synonym response = "(string \<times> jval) list"

section \<open>Strings: \<^verbatim>\<open>str.upper\<close> and \<^verbatim>\<open>str.lower\<close> on ASCII\<close>

text \<open>
  The source canonicalises the symbol with \<^verbatim>\<open>upper()\<close> and the side and the type with
  \<^verbatim>\<open>lower()\<close>. The two functions are modelled on the ASCII letters; every other character
  is left as it is.
\<close>

definition upper_char :: "char \<Rightarrow> char" where
  "upper_char c =
     (case map_of (zip ''abcdefghijklmnopqrstuvwxyz'' ''ABCDEFGHIJKLMNOPQRSTUVWXYZ'') c of
        None \<Rightarrow> c | Some u \<Rightarrow> u)"

definition lower_char :: "char \<Rightarrow> char" where
  "lower_char c =
     (case map_of (zip ''ABCDEFGHIJKLMNOPQRSTUVWXYZ'' ''abcdefghijklmnopqrstuvwxyz'') c of
        None \<Rightarrow> c | Some l \<Rightarrow> l)"

definition upper :: "string \<Rightarrow> string" where
  "upper s = map upper_char s"

definition lower :: "string \<Rightarrow> string" where
  "lower s = map lower_char s"

section \<open>The SortedDict operations the engine uses\<close>

text \<open>\<^verbatim>\<open>sd[k]\<close> is \<open>map_of sd k\<close>; \<^verbatim>\<open>k in sd\<close> is \<open>map_of sd k \<noteq> None\<close>.\<close>

fun sd_insert :: "rat \<Rightarrow> entry list \<Rightarrow> side_book \<Rightarrow> side_book" where
  "sd_insert k v [] = [(k, v)]"
| "sd_insert k v ((a, b) # ps) =
     (if k < a then (k, v) # (a, b) # ps
      else if k = a then (k, v) # ps
      else (a, b) # sd_insert k v ps)"

text \<open>
  The deque stored under a key is mutated in place by the source
  (\<^verbatim>\<open>queue.popleft()\<close>, \<^verbatim>\<open>maker_order['quantity'] -= trade_qty\<close>, \<^verbatim>\<open>queue.remove(o)\<close>,
  \<^verbatim>\<open>.append(...)\<close>); \<open>sd_store\<close> writes the new value of that deque back under its key.
\<close>

fun sd_store :: "rat \<Rightarrow> entry list \<Rightarrow> side_book \<Rightarrow> side_book" where
  "sd_store k v [] = []"
| "sd_store k v ((a, b) # ps) = (if k = a then (a, v) # ps else (a, b) # sd_store k v ps)"

text \<open>\<^verbatim>\<open>del sd[k]\<close>.\<close>

fun sd_del :: "rat \<Rightarrow> side_book \<Rightarrow> side_book" where
  "sd_del k [] = []"
| "sd_del k ((a, b) # ps) = (if k = a then ps else (a, b) # sd_del k ps)"

section \<open>The MongoDB collection operations the engine uses\<close>

text \<open>
  A collection is the list of its documents in insertion order: \<^verbatim>\<open>insert_one\<close> appends,
  \<^verbatim>\<open>find_one({"order_id": i})\<close> returns the first document with that identifier and
  \<^verbatim>\<open>update_one({"order_id": i}, {"$set": ...})\<close> changes the first such document.
\<close>

definition insert_one :: "'a list \<Rightarrow> 'a \<Rightarrow> 'a list" where
  "insert_one coll d = coll @ [d]"

fun find_one :: "order_doc list \<Rightarrow> string \<Rightarrow> order_doc option" where
  "find_one [] i = None"
| "find_one (d # ds) i = (if d_order_id d = i then Some d else find_one ds i)"

fun update_one :: "order_doc list \<Rightarrow> string \<Rightarrow> (order_doc \<Rightarrow> order_doc) \<Rightarrow> order_doc list" where
  "update_one [] i f = []"
| "update_one (d # ds) i f = (if d_order_id d = i then f d # ds else d # update_one ds i f)"

section \<open>Authentication\<close>

definition fake_users_db :: "string \<rightharpoonup> user" where
  "fake_users_db = [''alice'' \<mapsto> \<lparr>username = ''alice'', hashed_password = ''secret''\<rparr>]"

definition get_current_user :: "(string \<rightharpoonup> user) \<Rightarrow> string \<Rightarrow> error + user" where
  "get_current_user users token =
     (case users token of
        None \<Rightarrow> Inl (HTTPException 401 ''Invalid authentication credentials'')
      | Some u \<Rightarrow> Inr u)"

section \<open>Order books\<close>

definition get_order_book :: "(string \<rightharpoonup> book) \<Rightarrow> string \<Rightarrow> book \<times> (string \<rightharpoonup> book)" where
  "get_order_book obs symbol =
     (let sym = upper symbol in
      case obs sym of
        None \<Rightarrow> (\<lparr>bids = [], asks = []\<rparr>, obs(sym \<mapsto> \<lparr>bids = [], asks = []\<rparr>))
      | Some b \<Rightarrow> (b, obs))"

definition get_best_price :: "side_book \<Rightarrow> side_book \<Rightarrow> rat option \<times> rat option" where
  "get_best_price bs as =
     (if bs \<noteq> [] then Some (fst (last bs)) else None,
      if as \<noteq> [] then Some (fst (hd as)) else None)"

section \<open>submit\_order\<close>

text \<open>
  The local variables of \<^verbatim>\<open>submit_order\<close> that the matching loop changes:
  \<^verbatim>\<open>book\<close> (mutated in place), \<^verbatim>\<open>remaining\<close>, \<^verbatim>\<open>trades_executed\<close>, \<^verbatim>\<open>match_price\<close>
  (unbound until the first match, which the source tests with
  \<^verbatim>\<open>'match_price' in locals()\<close>), and the two collections.
\<close>

record match_state =
  m_book :: book
  m_remaining :: rat
  m_trades_executed :: "trade list"
  m_match_price :: "rat option"
  m_orders :: "order_doc list"
  m_trades :: "trade list"

datatype flow = Break match_state | Continue match_state | Raise error

text \<open>
  The FOK pre-check (lines 144-153): the sum of the quantities of all levels of the
  opposite side whose price is marketable against the incoming price.
\<close>

definition fok_available :: "string \<Rightarrow> rat option \<Rightarrow> book \<Rightarrow> rat" where
  "fok_available side price book =
     (if side = ''buy''
      then sum_list (map (\<lambda>(ask_price, queue).
             if (case price of None \<Rightarrow> True | Some p \<Rightarrow> ask_price \<le> p)
             then sum_list (map e_quantity queue) else 0) (asks book))
      else sum_list (map (\<lambda>(bid_price, queue).
             if (case price of None \<Rightarrow> True | Some p \<Rightarrow> bid_price \<ge> p)
             then sum_list (map e_quantity queue) else 0) (bids book)))"

text \<open>
  Lines 175-207: the execution against \<^verbatim>\<open>maker_order = queue[0]\<close>, where \<open>rest\<close> is the
  deque behind it: the two decrements, the trade record, the maker's persisted state, and
  the removal of a depleted maker and of an emptied level.
\<close>

definition fill ::
  "string \<Rightarrow> string \<Rightarrow> string \<Rightarrow> rat \<Rightarrow> entry \<Rightarrow> entry list \<Rightarrow> match_state \<Rightarrow> match_state" where
  "fill symbol side order_id match_price maker_order rest s =
     (let side_book = (if side = ''buy'' then asks (m_book s) else bids (m_book s));
          trade_qty = min (m_remaining s) (e_quantity maker_order);
          maker_quantity = e_quantity maker_order - trade_qty;
          remaining = m_remaining s - trade_qty;
          trade = \<lparr>t_symbol = symbol, t_price = match_price, t_quantity = trade_qty,
                   maker_order_id = e_order_id maker_order, taker_order_id = order_id,
                   aggressor_side = side\<rparr>;
          queue1 = (if maker_quantity = 0 then rest
                    else maker_order\<lparr>e_quantity := maker_quantity\<rparr> # rest);
          orders = (if maker_quantity = 0
                    then update_one (m_orders s) (e_order_id maker_order)
                           (\<lambda>d. d\<lparr>d_status := ''filled''\<rparr>)
                    else update_one (m_orders s) (e_order_id maker_order)
                           (\<lambda>d. d\<lparr>d_quantity := maker_quantity, d_status := ''partial''\<rparr>));
          side_book1 = sd_store match_price queue1 side_book;
          side_book2 = (if queue1 = [] then sd_del match_price side_book1 else side_book1)
      in s\<lparr>m_book := (if side = ''buy'' then (m_book s)\<lparr>asks := side_book2\<rparr>
                       else (m_book s)\<lparr>bids := side_book2\<rparr>),
           m_remaining := remaining,
           m_trades_executed := m_trades_executed s @ [trade],
           m_match_price := Some match_price,
           m_orders := orders,
           m_trades := insert_one (m_trades s) trade\<rparr>)"

text \<open>
  Lines 166/171, 174 and 209-211: the lookup of the level's deque, \<^verbatim>\<open>queue[0]\<close> (which
  raises \<^verbatim>\<open>IndexError\<close> on an empty deque), the execution, and the \<^verbatim>\<open>break\<close> of an IOC
  order after it.
\<close>

definition execute_trade ::
  "string \<Rightarrow> string \<Rightarrow> string \<Rightarrow> string \<Rightarrow> rat \<Rightarrow> match_state \<Rightarrow> flow" where
  "execute_trade symbol side typ order_id match_price s =
     (case map_of (if side = ''buy'' then asks (m_book s) else bids (m_book s)) match_price of
        None \<Rightarrow> Raise KeyError
      | Some queue \<Rightarrow>
         (case queue of
            [] \<Rightarrow> Raise IndexError
          | maker_order # rest \<Rightarrow>
             (let s' = fill symbol side order_id match_price maker_order rest s
              in if typ = ''ioc'' then Break s' else Continue s')))"

text \<open>
  Lines 161-171: the body of the loop up to the choice of the level. \<^verbatim>\<open>not book['asks']\<close>
  holds exactly when \<open>get_best_price\<close> returns \<^verbatim>\<open>None\<close> for the best ask.
\<close>

definition match_iter ::
  "string \<Rightarrow> string \<Rightarrow> string \<Rightarrow> rat option \<Rightarrow> string \<Rightarrow> match_state \<Rightarrow> flow" where
  "match_iter symbol side typ price order_id s =
     (case get_best_price (bids (m_book s)) (asks (m_book s)) of (best_bid, best_ask) \<Rightarrow>
        if side = ''buy'' then
          (case best_ask of
             None \<Rightarrow> Break s
           | Some a \<Rightarrow>
               if (case price of None \<Rightarrow> False | Some p \<Rightarrow> a > p) then Break s
               else execute_trade symbol side typ order_id a s)
        else
          (case best_bid of
             None \<Rightarrow> Break s
           | Some b \<Rightarrow>
               if (case price of None \<Rightarrow> False | Some p \<Rightarrow> b < p) then Break s
               else execute_trade symbol side typ order_id b s))"

text \<open>The number of resting entries on the side the loop consumes.\<close>

definition opposite :: "string \<Rightarrow> book \<Rightarrow> side_book" where
  "opposite side b = (if side = ''buy'' then asks b else bids b)"

definition entries :: "side_book \<Rightarrow> entry list" where
  "entries sb = concat (map snd sb)"

text \<open>Lines 160-211: the loop. Every iteration either removes the maker it traded with
  or exhausts \<^verbatim>\<open>remaining\<close>, which is why it terminates.\<close>

function match_loop ::
  "string \<Rightarrow> string \<Rightarrow> string \<Rightarrow> rat option \<Rightarrow> string \<Rightarrow> match_state \<Rightarrow> error + match_state" where
  "match_loop symbol side typ price order_id s =
     (if m_remaining s > 0 then
        (case match_iter symbol side typ price order_id s of
           Break s' \<Rightarrow> Inr s'
         | Continue s' \<Rightarrow> match_loop symbol side typ price order_id s'
         | Raise e \<Rightarrow> Inl e)
      else Inr s)"
  by pat_completeness auto
termination
proof (relation "measure (\<lambda>(symbol, side, typ, price, order_id, s). length (entries (opposite side (m_book s))) + (if m_remaining s > 0 then 1 else 0))", goal_cases)
  case 1
  show ?case by simp
next
  case (2 symbol side ty price order_id s s')
  have len_store: "length (entries (sd_store k q' sb)) + length q = length (entries sb) + length q'"
    if "map_of sb k = Some q" for sb k q q'
    using that by (induction sb) (auto simp: entries_def)
  have len_del: "length (entries (sd_del k sb)) + length q = length (entries sb)"
    if "map_of sb k = Some q" for sb k q
    using that by (induction sb) (auto simp: entries_def)
  have get_store: "map_of (sd_store k q' sb) k = Some q'"
    if "map_of sb k = Some q" for sb k q q'
    using that by (induction sb) (auto split: if_splits)
  from 2(2) obtain mp where e: "execute_trade symbol side ty order_id mp s = Continue s'"
    by (auto simp: match_iter_def get_best_price_def split: if_splits option.splits)
  let ?sb = "opposite side (m_book s)"
  from e obtain maker rest where q: "map_of ?sb mp = Some (maker # rest)"
    and s': "s' = fill symbol side order_id mp maker rest s"
    by (auto simp: execute_trade_def opposite_def Let_def split: option.splits list.splits if_splits)
  let ?mq = "e_quantity maker - min (m_remaining s) (e_quantity maker)"
  let ?q1 = "if ?mq = 0 then rest else maker\<lparr>e_quantity := ?mq\<rparr> # rest"
  let ?sb1 = "sd_store mp ?q1 ?sb"
  have rem: "m_remaining s' = m_remaining s - min (m_remaining s) (e_quantity maker)"
    unfolding s' by (simp add: fill_def Let_def)
  have sb': "opposite side (m_book s') = (if ?q1 = [] then sd_del mp ?sb1 else ?sb1)"
    unfolding s' by (simp add: fill_def opposite_def Let_def)
  have l1: "length (entries ?sb1) + Suc (length rest) = length (entries ?sb) + length ?q1"
    using len_store [OF q, of ?q1] by simp
  have l2: "length (entries (sd_del mp ?sb1)) + length ?q1 = length (entries ?sb1)"
    using len_del [OF get_store [OF q, of ?q1]] .
  have "length (entries (opposite side (m_book s'))) + (if m_remaining s' > 0 then 1 else 0)
        < length (entries ?sb) + 1"
  proof (cases "?mq = 0")
    case True
    then show ?thesis using l1 l2 sb' by (simp split: if_splits)
  next
    case False
    then have "m_remaining s' = 0" using rem by (simp add: min_def split: if_splits)
    then show ?thesis using l1 l2 sb' False by (simp split: if_splits)
  qed
  then show ?case using 2(1) by simp
qed

text \<open>
  Lines 214-234: the remainder. For a limit order the source appends the residual to the
  deque at \<^verbatim>\<open>resting_price\<close>, creating the deque when the price is not yet a key.
\<close>

definition handle_remaining ::
  "string \<Rightarrow> string \<Rightarrow> rat option \<Rightarrow> string \<Rightarrow> match_state \<Rightarrow> match_state" where
  "handle_remaining side typ price order_id s =
     (let remaining = m_remaining s; book = m_book s in
      if remaining > 0 then
        if typ = ''limit'' then
          (case (case price of Some p \<Rightarrow> Some p | None \<Rightarrow> m_match_price s) of
             None \<Rightarrow>
               s\<lparr>m_orders := update_one (m_orders s) order_id (\<lambda>d. d\<lparr>d_status := ''cancelled''\<rparr>)\<rparr>
           | Some resting_price \<Rightarrow>
               (let side_book = (if side = ''buy'' then bids book else asks book);
                    side_book1 = (case map_of side_book resting_price of
                                    None \<Rightarrow> sd_insert resting_price [] side_book
                                  | Some _ \<Rightarrow> side_book);
                    queue = (case map_of side_book1 resting_price of
                               None \<Rightarrow> [] | Some q \<Rightarrow> q);
                    side_book2 = sd_store resting_price
                                   (queue @ [\<lparr>e_order_id = order_id, e_quantity = remaining\<rparr>])
                                   side_book1
                in s\<lparr>m_book := (if side = ''buy'' then book\<lparr>bids := side_book2\<rparr>
                                 else book\<lparr>asks := side_book2\<rparr>),
                     m_orders := update_one (m_orders s) order_id
                                   (\<lambda>d. d\<lparr>d_quantity := remaining, d_status := ''open''\<rparr>)\<rparr>))
        else s\<lparr>m_orders := update_one (m_orders s) order_id (\<lambda>d. d\<lparr>d_status := ''cancelled''\<rparr>)\<rparr>
      else s\<lparr>m_orders := update_one (m_orders s) order_id (\<lambda>d. d\<lparr>d_status := ''filled''\<rparr>)\<rparr>)"

text \<open>
  Lines 108-236. The two \<^verbatim>\<open>HTTPException\<close>s are raised before anything is written. The
  book returned by \<open>get_order_book\<close> is the object stored under \<open>upper symbol\<close>, so the
  loop's changes to it are written back under that key.
\<close>

definition submit_order :: "engine \<Rightarrow> OrderIn \<Rightarrow> user \<Rightarrow> string \<Rightarrow> error + (response \<times> engine)" where
  "submit_order st order usr order_id =
     (let symbol = upper (in_symbol order);
          side = lower (in_side order);
          typ = lower (in_order_type order);
          qty = in_quantity order
      in
      if qty \<le> 0 then Inl (HTTPException 400 ''Quantity must be positive'')
      else if typ \<in> set [''limit'', ''ioc'', ''fok''] \<and> in_price order = None
      then Inl (HTTPException 400 ''Limit orders require a price'')
      else
        (let price = (if typ \<in> set [''limit'', ''ioc'', ''fok''] then in_price order else None);
             orders1 = insert_one (orders_collection st)
                         \<lparr>d_order_id = order_id, d_symbol = symbol, d_user = username usr,
                          d_side = side, d_type = typ, d_quantity = qty, d_price = price,
                          d_status = ''open''\<rparr>
         in case get_order_book (order_books st) symbol of (book, obs) \<Rightarrow>
           if typ = ''fok'' \<and> fok_available side price book < qty
           then Inr ([(''order_id'', JStr order_id), (''status'', JStr ''cancelled''),
                      (''filled'', JBool False)],
                     st\<lparr>order_books := obs,
                        orders_collection :=
                          update_one orders1 order_id (\<lambda>d. d\<lparr>d_status := ''cancelled''\<rparr>)\<rparr>)
           else
             (case match_loop symbol side typ price order_id
                     \<lparr>m_book = book, m_remaining = qty, m_trades_executed = [],
                      m_match_price = None, m_orders = orders1,
                      m_trades = trades_collection st\<rparr> of
                Inl e \<Rightarrow> Inl e
              | Inr s1 \<Rightarrow>
                 (let s2 = handle_remaining side typ price order_id s1
                  in Inr ([(''order_id'', JStr order_id), (''trades'', JTrades (m_trades_executed s2))],
                          st\<lparr>order_books := obs(upper symbol \<mapsto> m_book s2),
                             orders_collection := m_orders s2,
                             trades_collection := m_trades s2\<rparr>)))))"

section \<open>cancel\_order\<close>

text \<open>
  Lines 256-259: \<^verbatim>\<open>queue.remove(o)\<close> for the first \<^verbatim>\<open>o\<close> of the deque whose identifier is
  \<^verbatim>\<open>order_id\<close>.
\<close>

fun remove_order :: "string \<Rightarrow> entry list \<Rightarrow> entry list" where
  "remove_order i [] = []"
| "remove_order i (o1 # os) = (if e_order_id o1 = i then os else o1 # remove_order i os)"

text \<open>
  Lines 254-261: the order is taken out of the deque at its price, and the level is deleted
  when that leaves it empty. A price of \<^verbatim>\<open>None\<close> is never a key of the \<^verbatim>\<open>SortedDict\<close>.
\<close>

definition remove_resting :: "string \<Rightarrow> rat option \<Rightarrow> side_book \<Rightarrow> side_book" where
  "remove_resting order_id price side_book =
     (case price of
        None \<Rightarrow> side_book
      | Some p \<Rightarrow>
         (case map_of side_book p of
            None \<Rightarrow> side_book
          | Some queue \<Rightarrow>
             (let queue1 = remove_order order_id queue;
                  side_book1 = sd_store p queue1 side_book
              in if queue1 = [] then sd_del p side_book1 else side_book1)))"

text \<open>
  Lines 239-263. The parameter \<open>usr\<close> is the result of \<^verbatim>\<open>Depends(get_current_user)\<close>.
\<close>

definition cancel_order :: "engine \<Rightarrow> CancelOrder \<Rightarrow> user \<Rightarrow> error + (response \<times> engine)" where
  "cancel_order st cancel usr =
     (let order_id = c_order_id cancel in
      case find_one (orders_collection st) order_id of
        None \<Rightarrow> Inl (HTTPException 404 ''Order not found'')
      | Some db_order \<Rightarrow>
          if d_status db_order \<in> set [''filled'', ''cancelled'']
          then Inl (HTTPException 400 ''Order already finalized'')
          else
            (let symbol = d_symbol db_order; side = d_side db_order; price = d_price db_order
             in case get_order_book (order_books st) symbol of (book, obs) \<Rightarrow>
               (let side_book = (if side = ''buy'' then bids book else asks book);
                    side_book' = remove_resting order_id price side_book;
                    book' = (if side = ''buy'' then book\<lparr>bids := side_book'\<rparr>
                             else book\<lparr>asks := side_book'\<rparr>)
                in Inr ([(''order_id'', JStr order_id), (''status'', JStr ''cancelled'')],
                        st\<lparr>order_books := obs(upper symbol \<mapsto> book'),
                           orders_collection :=
                             update_one (orders_collection st) order_id
                               (\<lambda>d. d\<lparr>d_status := ''cancelled''\<rparr>)\<rparr>))))"

text \<open>The two endpoints behind \<^verbatim>\<open>Depends(get_current_user)\<close>, for a table of users.\<close>

definition submit_order_endpoint ::
  "(string \<rightharpoonup> user) \<Rightarrow> string \<Rightarrow> engine \<Rightarrow> OrderIn \<Rightarrow> string \<Rightarrow> error + (response \<times> engine)" where
  "submit_order_endpoint users token st order order_id =
     (case get_current_user users token of
        Inl e \<Rightarrow> Inl e
      | Inr usr \<Rightarrow> submit_order st order usr order_id)"

definition cancel_order_endpoint ::
  "(string \<rightharpoonup> user) \<Rightarrow> string \<Rightarrow> engine \<Rightarrow> CancelOrder \<Rightarrow> error + (response \<times> engine)" where
  "cancel_order_endpoint users token st cancel =
     (case get_current_user users token of
        Inl e \<Rightarrow> Inl e
      | Inr usr \<Rightarrow> cancel_order st cancel usr)"

definition init_engine :: engine where
  "init_engine = \<lparr>order_books = Map.empty, orders_collection = [], trades_collection = []\<rparr>"

section \<open>Notions used to state the properties\<close>

text \<open>
  A side of a book is well formed when its prices are strictly ascending (what a
  \<^verbatim>\<open>SortedDict\<close> keeps for keys that are numbers), no level is empty and every resting quantity is
  positive.
\<close>

definition sd_ok :: "side_book \<Rightarrow> bool" where
  "sd_ok sb \<longleftrightarrow>
     sorted_wrt (<) (map fst sb) \<and>
     (\<forall>(p, q) \<in> set sb. q \<noteq> [] \<and> (\<forall>e \<in> set q. 0 < e_quantity e))"

definition book_ok :: "book \<Rightarrow> bool" where
  "book_ok b \<longleftrightarrow> sd_ok (bids b) \<and> sd_ok (asks b)"

text \<open>No crossed book: the best bid is strictly below the best ask when both exist.\<close>

definition uncrossed :: "book \<Rightarrow> bool" where
  "uncrossed b \<longleftrightarrow>
     (case get_best_price (bids b) (asks b) of
        (Some best_bid, Some best_ask) \<Rightarrow> best_bid < best_ask
      | _ \<Rightarrow> True)"

text \<open>The book of a symbol, which \<open>get_order_book\<close> creates empty on first use.\<close>

definition book_of :: "engine \<Rightarrow> string \<Rightarrow> book" where
  "book_of st symbol = (case order_books st symbol of None \<Rightarrow> \<lparr>bids = [], asks = []\<rparr> | Some b \<Rightarrow> b)"

text \<open>Whether a level at price \<open>p\<close> is marketable for an incoming order (lines 163, 168).\<close>

definition marketable :: "string \<Rightarrow> rat option \<Rightarrow> rat \<Rightarrow> bool" where
  "marketable side price p =
     (case price of None \<Rightarrow> True | Some l \<Rightarrow> if side = ''buy'' then p \<le> l else l \<le> p)"

text \<open>
  The resting orders an incoming order of the given side faces, in price-time priority:
  best opposite price first (asks ascending, bids descending), and within a level in the
  order of the deque, each paired with the price of its level.
\<close>

definition levels :: "string \<Rightarrow> book \<Rightarrow> side_book" where
  "levels side b = (if side = ''buy'' then asks b else rev (bids b))"

definition priority :: "string \<Rightarrow> book \<Rightarrow> (rat \<times> entry) list" where
  "priority side b = concat (map (\<lambda>(p, q). map (Pair p) q) (levels side b))"

text \<open>
  The quantity resting at the marketable levels of a list of levels; on the levels an
  incoming order faces this is what the FOK pre-check computes.
\<close>

definition avail :: "string \<Rightarrow> rat option \<Rightarrow> side_book \<Rightarrow> rat" where
  "avail side price lv =
     sum_list (map (\<lambda>(p, q). if marketable side price p then sum_list (map e_quantity q) else 0) lv)"

text \<open>The side of the book an incoming order rests on.\<close>

definition own :: "string \<Rightarrow> book \<Rightarrow> side_book" where
  "own side b = (if side = ''buy'' then bids b else asks b)"

text \<open>
  Names for three values that \<open>submit_order\<close> computes before the loop: the price it
  matches with (line 118-123), the document it inserts (line 128) and the local state at
  the head of the loop.
\<close>

definition taker_price :: "OrderIn \<Rightarrow> rat option" where
  "taker_price order =
     (if lower (in_order_type order) \<in> set [''limit'', ''ioc'', ''fok''] then in_price order
      else None)"

definition new_doc :: "OrderIn \<Rightarrow> user \<Rightarrow> string \<Rightarrow> order_doc" where
  "new_doc order usr order_id =
     \<lparr>d_order_id = order_id, d_symbol = upper (in_symbol order), d_user = username usr,
      d_side = lower (in_side order), d_type = lower (in_order_type order),
      d_quantity = in_quantity order, d_price = taker_price order, d_status = ''open''\<rparr>"

definition start_state :: "engine \<Rightarrow> OrderIn \<Rightarrow> user \<Rightarrow> string \<Rightarrow> match_state" where
  "start_state st order usr order_id =
     \<lparr>m_book = book_of st (upper (in_symbol order)), m_remaining = in_quantity order,
      m_trades_executed = [], m_match_price = None,
      m_orders = insert_one (orders_collection st) (new_doc order usr order_id),
      m_trades = trades_collection st\<rparr>"

text \<open>Every book of the engine is well formed and not crossed.\<close>

definition books_ok :: "engine \<Rightarrow> bool" where
  "books_ok st \<longleftrightarrow> (\<forall>symbol b. order_books st symbol = Some b \<longrightarrow> book_ok b \<and> uncrossed b)"

text \<open>The states the engine reaches from the empty one by successful requests.\<close>

inductive reachable :: "engine \<Rightarrow> bool" where
  init: "reachable init_engine"
| submit: "reachable st \<Longrightarrow> submit_order st order usr order_id = Inr (r, st') \<Longrightarrow> reachable st'"
| cancel: "reachable st \<Longrightarrow> cancel_order st cancel usr = Inr (r, st') \<Longrightarrow> reachable st'"

text \<open>
  The spec's names for the two errors of a cancel request, as the source raises them
  (lines 246 and 248).
\<close>

definition NotFound :: error where
  "NotFound = HTTPException 404 ''Order not found''"

definition AlreadyTerminal :: error where
  "AlreadyTerminal = HTTPException 400 ''Order already finalized''"

text \<open>An order rests when some deque of some book holds an entry with its identifier.\<close>

definition rests :: "engine \<Rightarrow> string \<Rightarrow> bool" where
  "rests st i \<longleftrightarrow>
     (\<exists>symbol b. order_books st symbol = Some b
        \<and> i \<in> e_order_id ` set (entries (bids b) @ entries (asks b)))"

text \<open>
  Where \<open>cancel_order\<close> looks for an order: the book, side and price that the order's
  document records. A side of a book is located when every entry of every deque is where
  its document says, and no deque holds an identifier twice.
\<close>

definition loc_of :: "order_doc list \<Rightarrow> string \<Rightarrow> (string \<times> bool \<times> rat option) option" where
  "loc_of db i =
     map_option (\<lambda>d. (upper (d_symbol d), d_side d = ''buy'', d_price d)) (find_one db i)"

definition side_located ::
  "(string \<Rightarrow> (string \<times> bool \<times> rat option) option) \<Rightarrow> string \<Rightarrow> bool \<Rightarrow> side_book \<Rightarrow> bool" where
  "side_located locf symbol isbid sb \<longleftrightarrow>
     (\<forall>(p, q) \<in> set sb. distinct (map e_order_id q)
        \<and> (\<forall>e \<in> set q. locf (e_order_id e) = Some (symbol, isbid, Some p)))"

definition located ::
  "(string \<Rightarrow> (string \<times> bool \<times> rat option) option) \<Rightarrow> string \<Rightarrow> book \<Rightarrow> bool" where
  "located locf symbol b \<longleftrightarrow>
     side_located locf symbol True (bids b) \<and> side_located locf symbol False (asks b)"

definition books_located :: "engine \<Rightarrow> bool" where
  "books_located st \<longleftrightarrow>
     (\<forall>symbol b. order_books st symbol = Some b
        \<longrightarrow> located (loc_of (orders_collection st)) symbol b)"

text \<open>
  The quantity traded with an order as maker and as taker, over a trade log, and the
  quantity an identifier was submitted with, over a history of accepted submissions.
\<close>

definition made :: "trade list \<Rightarrow> string \<Rightarrow> rat" where
  "made ts i = sum_list (map t_quantity (filter (\<lambda>t. maker_order_id t = i) ts))"

definition taken :: "trade list \<Rightarrow> string \<Rightarrow> rat" where
  "taken ts i = sum_list (map t_quantity (filter (\<lambda>t. taker_order_id t = i) ts))"

definition orig :: "(OrderIn \<times> string) list \<Rightarrow> string \<Rightarrow> rat option" where
  "orig h i = map_of (map (\<lambda>(order, j). (j, in_quantity order)) h) i"

text \<open>
  The ledger of a state with its history: every trade has a positive quantity and known
  parties; every submitted identifier has a document; what has been traded with an order,
  as maker and as taker, never exceeds what it was submitted with, and for a resting order
  it leaves room for the quantity that still rests.
\<close>

definition traded :: "trade list \<Rightarrow> string \<Rightarrow> rat" where
  "traded ts i = made ts i + taken ts i"

definition ledger_ok :: "(OrderIn \<times> string) list \<Rightarrow> engine \<Rightarrow> bool" where
  "ledger_ok h st \<longleftrightarrow>
     (\<forall>t \<in> set (trades_collection st). 0 < t_quantity t
         \<and> orig h (maker_order_id t) \<noteq> None \<and> orig h (taker_order_id t) \<noteq> None)
   \<and> (\<forall>i. orig h i \<noteq> None \<longrightarrow> find_one (orders_collection st) i \<noteq> None)
   \<and> (\<forall>i q. orig h i = Some q \<longrightarrow> traded (trades_collection st) i \<le> q)
   \<and> (\<forall>symbol b e. order_books st symbol = Some b
         \<longrightarrow> e \<in> set (entries (bids b) @ entries (asks b))
         \<longrightarrow> (\<exists>q. orig h (e_order_id e) = Some q
                \<and> traded (trades_collection st) (e_order_id e) + e_quantity e \<le> q))
   \<and> distinct (map snd h)"

text \<open>
  The states reached from the empty engine by successful requests whose submissions carry
  fresh identifiers (\<^verbatim>\<open>uuid4\<close>), together with the history of these submissions.
\<close>

inductive reachable_by :: "(OrderIn \<times> string) list \<Rightarrow> engine \<Rightarrow> bool" where
  start: "reachable_by [] init_engine"
| submit: "reachable_by h st \<Longrightarrow> find_one (orders_collection st) order_id = None \<Longrightarrow>
           submit_order st order usr order_id = Inr (r, st') \<Longrightarrow>
           reachable_by (h @ [(order, order_id)]) st'"
| cancel: "reachable_by h st \<Longrightarrow> cancel_order st cancel usr = Inr (r, st') \<Longrightarrow>
           reachable_by h st'"

text \<open>
  Requests for the scenarios below: a user, a request body, and a sequence of submissions
  with their identifiers (a submission that raises leaves the state as it was).
\<close>

definition alice :: user where
  "alice = \<lparr>username = ''alice'', hashed_password = ''secret''\<rparr>"

definition bob :: user where
  "bob = \<lparr>username = ''bob'', hashed_password = ''hunter2''\<rparr>"

definition order_in :: "string \<Rightarrow> string \<Rightarrow> rat \<Rightarrow> rat option \<Rightarrow> OrderIn" where
  "order_in ty sd q p =
     \<lparr>in_symbol = ''BTC-USD'', in_order_type = ty, in_side = sd, in_quantity = q, in_price = p\<rparr>"

fun submits :: "engine \<Rightarrow> (OrderIn \<times> string) list \<Rightarrow> engine" where
  "submits st [] = st"
| "submits st ((order, i) # xs) =
     (case submit_order st order alice i of
        Inl e \<Rightarrow> submits st xs
      | Inr (r, st') \<Rightarrow> submits st' xs)"

text \<open>Shorthands for the concrete states, documents, entries and trades of the scenarios.\<close>

definition btc :: "side_book \<Rightarrow> side_book \<Rightarrow> order_doc list \<Rightarrow> trade list \<Rightarrow> engine" where
  "btc bs as ds ts =
     \<lparr>order_books = [''BTC-USD'' \<mapsto> \<lparr>bids = bs, asks = as\<rparr>], orders_collection = ds,
      trades_collection = ts\<rparr>"

definition doc :: "string \<Rightarrow> string \<Rightarrow> string \<Rightarrow> rat \<Rightarrow> rat option \<Rightarrow> string \<Rightarrow> order_doc" where
  "doc i ty sd q p status =
     \<lparr>d_order_id = i, d_symbol = ''BTC-USD'', d_user = ''alice'', d_side = sd, d_type = ty,
      d_quantity = q, d_price = p, d_status = status\<rparr>"

definition ent :: "string \<Rightarrow> rat \<Rightarrow> entry" where
  "ent i q = \<lparr>e_order_id = i, e_quantity = q\<rparr>"

definition trd :: "rat \<Rightarrow> rat \<Rightarrow> string \<Rightarrow> string \<Rightarrow> string \<Rightarrow> trade" where
  "trd p q maker taker sd =
     \<lparr>t_symbol = ''BTC-USD'', t_price = p, t_quantity = q, maker_order_id = maker,
      taker_order_id = taker, aggressor_side = sd\<rparr>"

section \<open>The engine on binary64 floats\<close>

text \<open>
  \<^verbatim>\<open>OrderIn\<close> declares \<^verbatim>\<open>quantity\<close> and \<^verbatim>\<open>price\<close> as \<^verbatim>\<open>float\<close>, and the only check on them is
  \<^verbatim>\<open>qty <= 0\<close>. The sections above compute with exact rationals. The sections below embed
  the same functions a second time, computing as CPython does: with IEEE 754 binary64
  values, rounding to nearest (ties to even) after every addition and subtraction, and with
  the infinities and NaN, which the request parser accepts. Each definition carries the
  name of the function it embeds with the suffix \<open>_f\<close>, and each record the prefix
  \<open>f\<close>. This embedding is the one to consult for a behaviour that depends on rounding or
  on NaN.
\<close>

subsection \<open>Python floats\<close>

text \<open>
  A float is a finite binary64 value, given by the rational it denotes, an infinity, or a
  NaN. Every comparison with a NaN is false, also \<^verbatim>\<open>==\<close> with itself; a \<^verbatim>\<open>dict\<close> nevertheless
  finds a NaN key when it is looked up with the very same object, because the lookup tests
  identity before equality. The number carried by \<open>NaN\<close> names the object: two NaNs are
  the same object exactly when they carry the same number. For the other values identity
  implies equality, so that equality of the model's values is the test \<^verbatim>\<open>x is k or x == k\<close>
  of a \<^verbatim>\<open>dict\<close> lookup. The two zeros compare equal, hash alike and are not told apart by
  any operation of the engine; both are \<open>Fin 0\<close>.
\<close>

datatype pyfloat = Fin rat | PInf | NInf | NaN nat

text \<open>
  Rounding of a rational to binary64. \<open>binade x\<close> is the exponent of the power of two at
  or below \<open>x\<close>, within the range binary64 has; the spacing of the floats there is
  \<open>pow2 q\<close> for \<open>q = max (binade x - 52) (- 1074)\<close>, the second bound being the spacing of
  the subnormal numbers. A magnitude that rounds to \<open>pow2 1024\<close> or beyond overflows to an
  infinity.
\<close>

definition pow2 :: "int \<Rightarrow> rat" where
  "pow2 e = (if 0 \<le> e then 2 ^ nat e else 1 / 2 ^ nat (- e))"

fun scale_down :: "nat \<Rightarrow> rat \<Rightarrow> int \<Rightarrow> int" where
  "scale_down 0 x e = e"
| "scale_down (Suc n) x e = (if 2 \<le> x then scale_down n (x / 2) (e + 1) else e)"

fun scale_up :: "nat \<Rightarrow> rat \<Rightarrow> int \<Rightarrow> int" where
  "scale_up 0 x e = e"
| "scale_up (Suc n) x e = (if x < 1 then scale_up n (2 * x) (e - 1) else e)"

definition binade :: "rat \<Rightarrow> int" where
  "binade x = (if 1 \<le> x then scale_down 1024 x 0 else scale_up 1075 x 0)"

definition round_even :: "rat \<Rightarrow> int" where
  "round_even y =
     (let f = \<lfloor>y\<rfloor>; d = y - of_int f
      in if d < 1 / 2 then f else if 1 / 2 < d then f + 1 else if even f then f else f + 1)"

definition round64 :: "rat \<Rightarrow> pyfloat" where
  "round64 x =
     (if x = 0 then Fin 0
      else
        (let q = max (binade \<bar>x\<bar> - 52) (- 1074);
             y = of_int (round_even (\<bar>x\<bar> / pow2 q)) * pow2 q
         in if pow2 1024 \<le> y then (if 0 < x then PInf else NInf)
            else Fin (if 0 < x then y else - y)))"

text \<open>
  \<^verbatim>\<open>a + b\<close> and \<^verbatim>\<open>a - b\<close>. A NaN that arithmetic produces is a new object; the engine never
  uses such a value as a key, and it is written \<open>NaN 0\<close>.
\<close>

definition fadd :: "pyfloat \<Rightarrow> pyfloat \<Rightarrow> pyfloat" where
  "fadd a b =
     (case a of
        Fin x \<Rightarrow> (case b of Fin y \<Rightarrow> round64 (x + y) | PInf \<Rightarrow> PInf | NInf \<Rightarrow> NInf
                   | NaN j \<Rightarrow> NaN 0)
      | PInf \<Rightarrow> (case b of Fin y \<Rightarrow> PInf | PInf \<Rightarrow> PInf | NInf \<Rightarrow> NaN 0 | NaN j \<Rightarrow> NaN 0)
      | NInf \<Rightarrow> (case b of Fin y \<Rightarrow> NInf | PInf \<Rightarrow> NaN 0 | NInf \<Rightarrow> NInf | NaN j \<Rightarrow> NaN 0)
      | NaN i \<Rightarrow> NaN 0)"

definition fsub :: "pyfloat \<Rightarrow> pyfloat \<Rightarrow> pyfloat" where
  "fsub a b =
     (case a of
        Fin x \<Rightarrow> (case b of Fin y \<Rightarrow> round64 (x - y) | PInf \<Rightarrow> NInf | NInf \<Rightarrow> PInf
                   | NaN j \<Rightarrow> NaN 0)
      | PInf \<Rightarrow> (case b of Fin y \<Rightarrow> PInf | PInf \<Rightarrow> NaN 0 | NInf \<Rightarrow> PInf | NaN j \<Rightarrow> NaN 0)
      | NInf \<Rightarrow> (case b of Fin y \<Rightarrow> NInf | PInf \<Rightarrow> NInf | NInf \<Rightarrow> NaN 0 | NaN j \<Rightarrow> NaN 0)
      | NaN i \<Rightarrow> NaN 0)"

text \<open>\<^verbatim>\<open>a < b\<close>, \<^verbatim>\<open>a == b\<close> and \<^verbatim>\<open>a <= b\<close>; \<^verbatim>\<open>a > b\<close> is \<open>flt b a\<close> and \<^verbatim>\<open>a >= b\<close> is \<open>fle b a\<close>.\<close>

definition flt :: "pyfloat \<Rightarrow> pyfloat \<Rightarrow> bool" where
  "flt a b =
     (case a of
        Fin x \<Rightarrow> (case b of Fin y \<Rightarrow> x < y | PInf \<Rightarrow> True | NInf \<Rightarrow> False | NaN j \<Rightarrow> False)
      | PInf \<Rightarrow> False
      | NInf \<Rightarrow> (case b of Fin y \<Rightarrow> True | PInf \<Rightarrow> True | NInf \<Rightarrow> False | NaN j \<Rightarrow> False)
      | NaN i \<Rightarrow> False)"

definition feq :: "pyfloat \<Rightarrow> pyfloat \<Rightarrow> bool" where
  "feq a b = (case a of NaN i \<Rightarrow> False | _ \<Rightarrow> a = b)"

definition fle :: "pyfloat \<Rightarrow> pyfloat \<Rightarrow> bool" where
  "fle a b \<longleftrightarrow> flt a b \<or> feq a b"

text \<open>
  The builtin \<^verbatim>\<open>min(a, b)\<close> keeps its first argument unless the second is smaller, and
  \<^verbatim>\<open>sum\<close> adds from the left, starting at \<^verbatim>\<open>0\<close>. (CPython from 3.12 on compensates the
  rounding error of \<^verbatim>\<open>sum\<close>; on a deque of one order the two agree.)
\<close>

definition pymin :: "pyfloat \<Rightarrow> pyfloat \<Rightarrow> pyfloat" where
  "pymin a b = (if flt b a then b else a)"

definition py_sum :: "pyfloat list \<Rightarrow> pyfloat" where
  "py_sum xs = foldl fadd (Fin 0) xs"

text \<open>The float that the request parser reads from a decimal numeral of the request body.\<close>

definition dec :: "rat \<Rightarrow> pyfloat" where
  "dec r = round64 r"

subsection \<open>The sorted list of keys\<close>

text \<open>
  The library \<^verbatim>\<open>sortedcontainers\<close> (version 2.4.0) keeps the keys of a \<^verbatim>\<open>SortedDict\<close> in a
  \<^verbatim>\<open>SortedList\<close>, and finds positions in it with \<^verbatim>\<open>bisect_right\<close> and \<^verbatim>\<open>bisect_left\<close> of
  the standard library, which compare with \<^verbatim>\<open><\<close> only. The two searches are embedded as
  they are written, so that they also say where a key goes when the comparisons are those
  of a list that holds a NaN.
\<close>

function bisect_right :: "pyfloat list \<Rightarrow> pyfloat \<Rightarrow> nat \<Rightarrow> nat \<Rightarrow> nat" where
  "bisect_right a x lo hi =
     (if lo < hi then
        (if flt x (a ! ((lo + hi) div 2)) then bisect_right a x lo ((lo + hi) div 2)
         else bisect_right a x ((lo + hi) div 2 + 1) hi)
      else lo)"
  by pat_completeness auto
termination
  by (relation "measure (\<lambda>(a, x, lo, hi). hi - lo)") auto

function bisect_left :: "pyfloat list \<Rightarrow> pyfloat \<Rightarrow> nat \<Rightarrow> nat \<Rightarrow> nat" where
  "bisect_left a x lo hi =
     (if lo < hi then
        (if flt (a ! ((lo + hi) div 2)) x then bisect_left a x ((lo + hi) div 2 + 1) hi
         else bisect_left a x lo ((lo + hi) div 2))
      else lo)"
  by pat_completeness auto
termination
  by (relation "measure (\<lambda>(a, x, lo, hi). hi - lo)") auto

definition insort_right :: "pyfloat list \<Rightarrow> pyfloat \<Rightarrow> pyfloat list" where
  "insort_right a x = (let i = bisect_right a x 0 (length a) in take i a @ x # drop i a)"

text \<open>
  \<^verbatim>\<open>SortedList.add\<close> and \<^verbatim>\<open>SortedList.remove\<close>. The library stores the keys in sublists and
  splits a sublist only when it grows beyond 2000 keys; the embedding is that of a list
  that has not been split, whose \<^verbatim>\<open>_maxes\<close> is the one-element list of its last key.
  \<^verbatim>\<open>add\<close> appends a key that is not below that last key and otherwise inserts it where
  \<^verbatim>\<open>bisect_right\<close> says; \<^verbatim>\<open>remove\<close> raises \<^verbatim>\<open>ValueError\<close> when \<^verbatim>\<open>bisect_left\<close> does not land
  on a key equal to the one to remove.
\<close>

definition sortedlist_add :: "pyfloat list \<Rightarrow> pyfloat \<Rightarrow> pyfloat list" where
  "sortedlist_add l v =
     (if l = [] then [v]
      else
        (let maxes = [last l]; pos = bisect_right maxes v 0 (length maxes)
         in if pos = length maxes then l @ [v] else insort_right l v))"

definition sortedlist_remove :: "pyfloat list \<Rightarrow> pyfloat \<Rightarrow> error + pyfloat list" where
  "sortedlist_remove l v =
     (if l = [] then Inl ValueError
      else
        (let maxes = [last l]; pos = bisect_left maxes v 0 (length maxes)
         in if pos = length maxes then Inl ValueError
            else
              (let idx = bisect_left l v 0 (length l)
               in if length l \<le> idx then Inl IndexError
                  else if feq (l ! idx) v then Inr (take idx l @ drop (Suc idx) l)
                  else Inl ValueError)))"

subsection \<open>The SortedDict\<close>

record fentry =
  fe_order_id :: string
  fe_quantity :: pyfloat

text \<open>
  A \<^verbatim>\<open>SortedDict\<close> is a \<^verbatim>\<open>dict\<close> together with the sorted list of its keys. The \<^verbatim>\<open>dict\<close> is
  the list of its items; \<open>map_of\<close> is the lookup \<^verbatim>\<open>d[k]\<close> with a key object or with a
  value equal to a key. An exception raised by an operation ends the request, and the
  embedding does not follow the state that such a request leaves behind.
\<close>

record sorted_dict =
  sd_keys :: "pyfloat list"
  sd_items :: "(pyfloat \<times> fentry list) list"

definition empty_sd :: sorted_dict where
  "empty_sd = \<lparr>sd_keys = [], sd_items = []\<rparr>"

fun dict_set :: "('k \<times> 'v) list \<Rightarrow> 'k \<Rightarrow> 'v \<Rightarrow> ('k \<times> 'v) list" where
  "dict_set [] k v = [(k, v)]"
| "dict_set ((a, b) # ps) k v = (if a = k then (a, v) # ps else (a, b) # dict_set ps k v)"

fun dict_del :: "('k \<times> 'v) list \<Rightarrow> 'k \<Rightarrow> ('k \<times> 'v) list" where
  "dict_del [] k = []"
| "dict_del ((a, b) # ps) k = (if a = k then ps else (a, b) # dict_del ps k)"

text \<open>
  \<^verbatim>\<open>p in sd\<close> for a float \<open>p\<close> that is a new object, as is the price that \<^verbatim>\<open>cancel_order\<close>
  reads back from the order's document: no key is identical to it, and the keys equal to
  it are found with \<^verbatim>\<open>==\<close>.
\<close>

definition contains_value :: "sorted_dict \<Rightarrow> pyfloat \<Rightarrow> bool" where
  "contains_value sd p = list_ex (\<lambda>(k, v). feq k p) (sd_items sd)"

text \<open>\<^verbatim>\<open>sd[k] = v\<close> (\<^verbatim>\<open>SortedDict.__setitem__\<close>): a key that is new is added to the list.\<close>

definition setitem :: "sorted_dict \<Rightarrow> pyfloat \<Rightarrow> fentry list \<Rightarrow> sorted_dict" where
  "setitem sd k v =
     \<lparr>sd_keys = (if map_of (sd_items sd) k = None then sortedlist_add (sd_keys sd) k
                 else sd_keys sd),
      sd_items = dict_set (sd_items sd) k v\<rparr>"

text \<open>
  \<^verbatim>\<open>del sd[k]\<close> (\<^verbatim>\<open>SortedDict.__delitem__\<close>): the item is deleted from the \<^verbatim>\<open>dict\<close>, then
  the key is removed from the list.
\<close>

definition delitem :: "sorted_dict \<Rightarrow> pyfloat \<Rightarrow> error + sorted_dict" where
  "delitem sd k =
     (case map_of (sd_items sd) k of
        None \<Rightarrow> Inl KeyError
      | Some v \<Rightarrow>
         (case sortedlist_remove (sd_keys sd) k of
            Inl e \<Rightarrow> Inl e
          | Inr l \<Rightarrow> Inr \<lparr>sd_keys = l, sd_items = dict_del (sd_items sd) k\<rparr>))"

text \<open>
  \<^verbatim>\<open>sd.peekitem(index)\<close>: the key at that index of the list, with a negative index counting
  from the end, and the value the \<^verbatim>\<open>dict\<close> holds for it.
\<close>

definition peekitem :: "sorted_dict \<Rightarrow> int \<Rightarrow> error + (pyfloat \<times> fentry list)" where
  "peekitem sd index =
     (let l = sd_keys sd in
      if (0 \<le> index \<and> length l \<le> nat index) \<or> (index < 0 \<and> length l < nat (- index))
      then Inl IndexError
      else
        (let key = (if 0 \<le> index then l ! nat index else l ! (length l - nat (- index)))
         in case map_of (sd_items sd) key of
              None \<Rightarrow> Inl KeyError
            | Some v \<Rightarrow> Inr (key, v)))"

subsection \<open>State of the engine\<close>

record OrderIn_f =
  fin_symbol :: string
  fin_order_type :: string
  fin_side :: string
  fin_quantity :: pyfloat
  fin_price :: "pyfloat option"

record ftrade =
  ft_symbol :: string
  ft_price :: pyfloat
  ft_quantity :: pyfloat
  ft_maker_order_id :: string
  ft_taker_order_id :: string
  ft_aggressor_side :: string

record forder_doc =
  fd_order_id :: string
  fd_symbol :: string
  fd_user :: string
  fd_side :: string
  fd_type :: string
  fd_quantity :: pyfloat
  fd_price :: "pyfloat option"
  fd_status :: string

record fbook =
  fbids :: sorted_dict
  fasks :: sorted_dict

record fengine =
  f_order_books :: "string \<rightharpoonup> fbook"
  f_orders_collection :: "forder_doc list"
  f_trades_collection :: "ftrade list"

datatype fjval = FStr string | FBool bool | FTrades "ftrade list"

type_synonym fresponse = "(string \<times> fjval) list"

fun find_one_f :: "forder_doc list \<Rightarrow> string \<Rightarrow> forder_doc option" where
  "find_one_f [] i = None"
| "find_one_f (d # ds) i = (if fd_order_id d = i then Some d else find_one_f ds i)"

fun update_one_f ::
  "forder_doc list \<Rightarrow> string \<Rightarrow> (forder_doc \<Rightarrow> forder_doc) \<Rightarrow> forder_doc list" where
  "update_one_f [] i f = []"
| "update_one_f (d # ds) i f = (if fd_order_id d = i then f d # ds else d # update_one_f ds i f)"

definition get_order_book_f ::
  "(string \<rightharpoonup> fbook) \<Rightarrow> string \<Rightarrow> fbook \<times> (string \<rightharpoonup> fbook)" where
  "get_order_book_f obs symbol =
     (let sym = upper symbol in
      case obs sym of
        None \<Rightarrow> (\<lparr>fbids = empty_sd, fasks = empty_sd\<rparr>,
                 obs(sym \<mapsto> \<lparr>fbids = empty_sd, fasks = empty_sd\<rparr>))
      | Some b \<Rightarrow> (b, obs))"

text \<open>
  Lines 138-141. \<^verbatim>\<open>if bids\<close> tests whether the \<^verbatim>\<open>dict\<close> has an item; \<^verbatim>\<open>peekitem(-1)\<close> and
  \<^verbatim>\<open>peekitem(0)\<close> read the last and the first key of the list, whichever keys these are.
\<close>

definition get_best_price_f ::
  "sorted_dict \<Rightarrow> sorted_dict \<Rightarrow> error + (pyfloat option \<times> pyfloat option)" where
  "get_best_price_f bs as =
     (case (if sd_items bs \<noteq> [] then map_sum id (\<lambda>kv. Some (fst kv)) (peekitem bs (- 1))
            else Inr None) of
        Inl e \<Rightarrow> Inl e
      | Inr best_bid \<Rightarrow>
         (case (if sd_items as \<noteq> [] then map_sum id (\<lambda>kv. Some (fst kv)) (peekitem as 0)
                else Inr None) of
            Inl e \<Rightarrow> Inl e
          | Inr best_ask \<Rightarrow> Inr (best_bid, best_ask)))"

subsection \<open>submit\_order on floats\<close>

record fmatch_state =
  fm_book :: fbook
  fm_remaining :: pyfloat
  fm_trades_executed :: "ftrade list"
  fm_match_price :: "pyfloat option"
  fm_orders :: "forder_doc list"
  fm_trades :: "ftrade list"

datatype fflow = FBreak fmatch_state | FContinue fmatch_state | FRaise error

text \<open>
  Lines 144-153: \<^verbatim>\<open>.items()\<close> walks the keys in the order of the list and looks each one
  up; \<open>ok\<close> is the test on the price of the level.
\<close>

fun fok_scan ::
  "(pyfloat \<Rightarrow> bool) \<Rightarrow> sorted_dict \<Rightarrow> pyfloat list \<Rightarrow> pyfloat \<Rightarrow> error + pyfloat" where
  "fok_scan ok sd [] available = Inr available"
| "fok_scan ok sd (k # ks) available =
     (case map_of (sd_items sd) k of
        None \<Rightarrow> Inl KeyError
      | Some queue \<Rightarrow>
          fok_scan ok sd ks
            (if ok k then fadd available (py_sum (map fe_quantity queue)) else available))"

definition fok_available_f :: "string \<Rightarrow> pyfloat option \<Rightarrow> fbook \<Rightarrow> error + pyfloat" where
  "fok_available_f side price book =
     (if side = ''buy''
      then fok_scan (\<lambda>ask_price. case price of None \<Rightarrow> True | Some p \<Rightarrow> fle ask_price p)
             (fasks book) (sd_keys (fasks book)) (Fin 0)
      else fok_scan (\<lambda>bid_price. case price of None \<Rightarrow> True | Some p \<Rightarrow> fle p bid_price)
             (fbids book) (sd_keys (fbids book)) (Fin 0))"

text \<open>Lines 175-207, as \<open>fill\<close> above; \<^verbatim>\<open>del\<close> of the emptied level can raise.\<close>

definition fill_f ::
  "string \<Rightarrow> string \<Rightarrow> string \<Rightarrow> pyfloat \<Rightarrow> fentry \<Rightarrow> fentry list \<Rightarrow> fmatch_state
     \<Rightarrow> error + fmatch_state" where
  "fill_f symbol side order_id match_price maker_order rest s =
     (let side_book = (if side = ''buy'' then fasks (fm_book s) else fbids (fm_book s));
          trade_qty = pymin (fm_remaining s) (fe_quantity maker_order);
          maker_quantity = fsub (fe_quantity maker_order) trade_qty;
          remaining = fsub (fm_remaining s) trade_qty;
          trade = \<lparr>ft_symbol = symbol, ft_price = match_price, ft_quantity = trade_qty,
                   ft_maker_order_id = fe_order_id maker_order, ft_taker_order_id = order_id,
                   ft_aggressor_side = side\<rparr>;
          queue1 = (if feq maker_quantity (Fin 0) then rest
                    else maker_order\<lparr>fe_quantity := maker_quantity\<rparr> # rest);
          orders = (if feq maker_quantity (Fin 0)
                    then update_one_f (fm_orders s) (fe_order_id maker_order)
                           (\<lambda>d. d\<lparr>fd_status := ''filled''\<rparr>)
                    else update_one_f (fm_orders s) (fe_order_id maker_order)
                           (\<lambda>d. d\<lparr>fd_quantity := maker_quantity, fd_status := ''partial''\<rparr>));
          side_book1 = side_book\<lparr>sd_items := dict_set (sd_items side_book) match_price queue1\<rparr>
      in case (if queue1 = [] then delitem side_book1 match_price else Inr side_book1) of
           Inl e \<Rightarrow> Inl e
         | Inr side_book2 \<Rightarrow>
             Inr (s\<lparr>fm_book := (if side = ''buy'' then (fm_book s)\<lparr>fasks := side_book2\<rparr>
                                else (fm_book s)\<lparr>fbids := side_book2\<rparr>),
                    fm_remaining := remaining,
                    fm_trades_executed := fm_trades_executed s @ [trade],
                    fm_match_price := Some match_price,
                    fm_orders := orders,
                    fm_trades := insert_one (fm_trades s) trade\<rparr>))"

definition execute_trade_f ::
  "string \<Rightarrow> string \<Rightarrow> string \<Rightarrow> string \<Rightarrow> pyfloat \<Rightarrow> fmatch_state \<Rightarrow> fflow" where
  "execute_trade_f symbol side typ order_id match_price s =
     (case map_of (sd_items (if side = ''buy'' then fasks (fm_book s) else fbids (fm_book s)))
             match_price of
        None \<Rightarrow> FRaise KeyError
      | Some queue \<Rightarrow>
         (case queue of
            [] \<Rightarrow> FRaise IndexError
          | maker_order # rest \<Rightarrow>
             (case fill_f symbol side order_id match_price maker_order rest s of
                Inl e \<Rightarrow> FRaise e
              | Inr s' \<Rightarrow> if typ = ''ioc'' then FBreak s' else FContinue s')))"

text \<open>Lines 161-171: \<^verbatim>\<open>best_ask > price\<close> is \<open>flt p a\<close>, which is false when either is a NaN.\<close>

definition match_iter_f ::
  "string \<Rightarrow> string \<Rightarrow> string \<Rightarrow> pyfloat option \<Rightarrow> string \<Rightarrow> fmatch_state \<Rightarrow> fflow" where
  "match_iter_f symbol side typ price order_id s =
     (case get_best_price_f (fbids (fm_book s)) (fasks (fm_book s)) of
        Inl e \<Rightarrow> FRaise e
      | Inr (best_bid, best_ask) \<Rightarrow>
        if side = ''buy'' then
          (case best_ask of
             None \<Rightarrow> FBreak s
           | Some a \<Rightarrow>
               if (case price of None \<Rightarrow> False | Some p \<Rightarrow> flt p a) then FBreak s
               else execute_trade_f symbol side typ order_id a s)
        else
          (case best_bid of
             None \<Rightarrow> FBreak s
           | Some b \<Rightarrow>
               if (case price of None \<Rightarrow> False | Some p \<Rightarrow> flt b p) then FBreak s
               else execute_trade_f symbol side typ order_id b s))"

definition opposite_f :: "string \<Rightarrow> fbook \<Rightarrow> sorted_dict" where
  "opposite_f side b = (if side = ''buy'' then fasks b else fbids b)"

text \<open>
  The loop terminates on floats too. An iteration that leaves a remainder above zero has
  traded the whole quantity of its maker: a finite maker is then removed, and a maker of
  quantity minus infinity is left with a NaN. The measure counts the resting entries
  twice and the entries of quantity minus infinity once more.
\<close>

definition weight :: "(pyfloat \<times> fentry list) list \<Rightarrow> nat" where
  "weight d = sum_list (map (\<lambda>e. if fe_quantity e = NInf then 3 else 2) (concat (map snd d)))"

function match_loop_f ::
  "string \<Rightarrow> string \<Rightarrow> string \<Rightarrow> pyfloat option \<Rightarrow> string \<Rightarrow> fmatch_state
     \<Rightarrow> error + fmatch_state" where
  "match_loop_f symbol side typ price order_id s =
     (if flt (Fin 0) (fm_remaining s) then
        (case match_iter_f symbol side typ price order_id s of
           FBreak s' \<Rightarrow> Inr s'
         | FContinue s' \<Rightarrow> match_loop_f symbol side typ price order_id s'
         | FRaise e \<Rightarrow> Inl e)
      else Inr s)"
  by pat_completeness auto
termination
proof (relation "measure (\<lambda>(symbol, side, typ, price, order_id, s).
         weight (sd_items (opposite_f side (fm_book s)))
         + (if flt (Fin 0) (fm_remaining s) then 1 else 0))", goal_cases)
  case 1
  show ?case by simp
next
  case (2 symbol side ty price order_id s s')
  let ?w = "\<lambda>e. if fe_quantity e = NInf then 3 else (2::nat)"
  have w_set: "weight (dict_set d k q') + sum_list (map ?w q) = weight d + sum_list (map ?w q')"
    if "map_of d k = Some q" for d :: "(pyfloat \<times> fentry list) list" and k q q'
    using that by (induction d) (auto simp: weight_def)
  have w_del: "weight (dict_del d k) + sum_list (map ?w q) = weight d"
    if "map_of d k = Some q" for d :: "(pyfloat \<times> fentry list) list" and k q
    using that by (induction d) (auto simp: weight_def)
  have get_set: "map_of (dict_set d k q') k = Some q'"
    for d :: "(pyfloat \<times> fentry list) list" and k q'
    by (induction d) auto
  have round_nonneg: "round64 x \<noteq> NInf" if "0 \<le> x" for x
    using that by (simp add: round64_def Let_def)
  have round_zero: "round64 0 = Fin 0"
    by (simp add: round64_def)
  from 2(2) obtain mp where e: "execute_trade_f symbol side ty order_id mp s = FContinue s'"
    by (auto simp: match_iter_f_def split: sum.splits if_splits option.splits)
  let ?sb = "opposite_f side (fm_book s)"
  let ?d = "sd_items ?sb"
  from e obtain maker rest where q: "map_of ?d mp = Some (maker # rest)"
    and f: "fill_f symbol side order_id mp maker rest s = Inr s'"
    by (auto simp: execute_trade_f_def opposite_f_def split: option.splits list.splits sum.splits if_splits)
  let ?rem = "fm_remaining s"
  let ?tq = "pymin ?rem (fe_quantity maker)"
  let ?mq = "fsub (fe_quantity maker) ?tq"
  let ?q1 = "if feq ?mq (Fin 0) then rest else maker\<lparr>fe_quantity := ?mq\<rparr> # rest"
  let ?d1 = "dict_set ?d mp ?q1"
  have rem': "fm_remaining s' = fsub ?rem ?tq"
    using f by (auto simp: fill_f_def Let_def split: sum.splits if_splits)
  have d': "sd_items (opposite_f side (fm_book s')) = (if ?q1 = [] then dict_del ?d1 mp else ?d1)"
    using f by (auto simp: fill_f_def Let_def opposite_f_def delitem_def split: sum.splits if_splits option.splits)
  have l1: "weight ?d1 + (?w maker + sum_list (map ?w rest)) = weight ?d + sum_list (map ?w ?q1)"
    using w_set [OF q, of ?q1] by simp
  have l2: "weight (dict_del ?d1 mp) + sum_list (map ?w ?q1) = weight ?d1"
    using w_del [OF get_set [of ?d mp ?q1]] .
  have "weight (sd_items (opposite_f side (fm_book s'))) + (if flt (Fin 0) (fm_remaining s') then 1 else 0)
        < weight ?d + 1"
  proof (cases "feq ?mq (Fin 0)")
    case True
    then show ?thesis using l1 l2 d' by (simp split: if_splits)
  next
    case False
    have "(if ?mq = NInf then 1 else 0) + (if flt (Fin 0) (fsub ?rem ?tq) then 1 else 0)
          < (if fe_quantity maker = NInf then 1 else 0) + (1::nat)"
      using False 2(1) round_nonneg round_zero
      by (cases "fe_quantity maker"; cases ?rem)
         (auto simp: pymin_def flt_def fsub_def feq_def split: if_splits)
    then show ?thesis using l1 l2 d' False rem' by (simp split: if_splits)
  qed
  then show ?case using 2(1) by simp
qed

text \<open>
  Lines 214-234. \<^verbatim>\<open>resting_price not in side_book\<close> is asked with the price object of
  the request; when it is true the price becomes a key, at the place \<^verbatim>\<open>SortedList.add\<close>
  gives it, and the residual is appended to the new deque.
\<close>

definition handle_remaining_f ::
  "string \<Rightarrow> string \<Rightarrow> pyfloat option \<Rightarrow> string \<Rightarrow> fmatch_state \<Rightarrow> fmatch_state" where
  "handle_remaining_f side typ price order_id s =
     (let remaining = fm_remaining s; book = fm_book s in
      if flt (Fin 0) remaining then
        if typ = ''limit'' then
          (case (case price of Some p \<Rightarrow> Some p | None \<Rightarrow> fm_match_price s) of
             None \<Rightarrow>
               s\<lparr>fm_orders := update_one_f (fm_orders s) order_id (\<lambda>d. d\<lparr>fd_status := ''cancelled''\<rparr>)\<rparr>
           | Some resting_price \<Rightarrow>
               (let side_book = (if side = ''buy'' then fbids book else fasks book);
                    side_book1 = (if map_of (sd_items side_book) resting_price = None
                                  then setitem side_book resting_price [] else side_book);
                    queue = (case map_of (sd_items side_book1) resting_price of
                               None \<Rightarrow> [] | Some q \<Rightarrow> q);
                    side_book2 = side_book1\<lparr>sd_items := dict_set (sd_items side_book1) resting_price
                                   (queue @ [\<lparr>fe_order_id = order_id, fe_quantity = remaining\<rparr>])\<rparr>
                in s\<lparr>fm_book := (if side = ''buy'' then book\<lparr>fbids := side_book2\<rparr>
                                  else book\<lparr>fasks := side_book2\<rparr>),
                     fm_orders := update_one_f (fm_orders s) order_id
                                    (\<lambda>d. d\<lparr>fd_quantity := remaining, fd_status := ''open''\<rparr>)\<rparr>))
        else s\<lparr>fm_orders := update_one_f (fm_orders s) order_id (\<lambda>d. d\<lparr>fd_status := ''cancelled''\<rparr>)\<rparr>
      else s\<lparr>fm_orders := update_one_f (fm_orders s) order_id (\<lambda>d. d\<lparr>fd_status := ''filled''\<rparr>)\<rparr>)"

text \<open>Lines 108-236. \<^verbatim>\<open>qty <= 0\<close> is false for a NaN, which is therefore accepted.\<close>

definition submit_order_f ::
  "fengine \<Rightarrow> OrderIn_f \<Rightarrow> user \<Rightarrow> string \<Rightarrow> error + (fresponse \<times> fengine)" where
  "submit_order_f st order usr order_id =
     (let symbol = upper (fin_symbol order);
          side = lower (fin_side order);
          typ = lower (fin_order_type order);
          qty = fin_quantity order
      in
      if fle qty (Fin 0) then Inl (HTTPException 400 ''Quantity must be positive'')
      else if typ \<in> set [''limit'', ''ioc'', ''fok''] \<and> fin_price order = None
      then Inl (HTTPException 400 ''Limit orders require a price'')
      else
        (let price = (if typ \<in> set [''limit'', ''ioc'', ''fok''] then fin_price order else None);
             orders1 = insert_one (f_orders_collection st)
                         \<lparr>fd_order_id = order_id, fd_symbol = symbol, fd_user = username usr,
                          fd_side = side, fd_type = typ, fd_quantity = qty, fd_price = price,
                          fd_status = ''open''\<rparr>
         in case get_order_book_f (f_order_books st) symbol of (book, obs) \<Rightarrow>
           (case (if typ = ''fok''
                  then map_sum id (\<lambda>available. flt available qty)
                         (fok_available_f side price book)
                  else Inr False) of
              Inl e \<Rightarrow> Inl e
            | Inr infeasible \<Rightarrow>
               if infeasible
               then Inr ([(''order_id'', FStr order_id), (''status'', FStr ''cancelled''),
                          (''filled'', FBool False)],
                         st\<lparr>f_order_books := obs,
                            f_orders_collection :=
                              update_one_f orders1 order_id (\<lambda>d. d\<lparr>fd_status := ''cancelled''\<rparr>)\<rparr>)
               else
                 (case match_loop_f symbol side typ price order_id
                         \<lparr>fm_book = book, fm_remaining = qty, fm_trades_executed = [],
                          fm_match_price = None, fm_orders = orders1,
                          fm_trades = f_trades_collection st\<rparr> of
                    Inl e \<Rightarrow> Inl e
                  | Inr s1 \<Rightarrow>
                     (let s2 = handle_remaining_f side typ price order_id s1
                      in Inr ([(''order_id'', FStr order_id),
                               (''trades'', FTrades (fm_trades_executed s2))],
                              st\<lparr>f_order_books := obs(upper symbol \<mapsto> fm_book s2),
                                 f_orders_collection := fm_orders s2,
                                 f_trades_collection := fm_trades s2\<rparr>))))))"

subsection \<open>cancel\_order on floats\<close>

fun remove_order_f :: "string \<Rightarrow> fentry list \<Rightarrow> fentry list" where
  "remove_order_f i [] = []"
| "remove_order_f i (o1 # os) = (if fe_order_id o1 = i then os else o1 # remove_order_f i os)"

text \<open>
  Lines 254-261. The price comes from the order's document, so it is a new object:
  \<^verbatim>\<open>price in side_book\<close> holds when a key is equal to it, never for a NaN.
\<close>

definition remove_resting_f ::
  "string \<Rightarrow> pyfloat option \<Rightarrow> sorted_dict \<Rightarrow> error + sorted_dict" where
  "remove_resting_f order_id price side_book =
     (case price of
        None \<Rightarrow> Inr side_book
      | Some p \<Rightarrow>
         if contains_value side_book p then
           (case map_of (sd_items side_book) p of
              None \<Rightarrow> Inl KeyError
            | Some queue \<Rightarrow>
               (let queue1 = remove_order_f order_id queue;
                    side_book1 = side_book\<lparr>sd_items := dict_set (sd_items side_book) p queue1\<rparr>
                in if queue1 = [] then delitem side_book1 p else Inr side_book1))
         else Inr side_book)"

definition cancel_order_f ::
  "fengine \<Rightarrow> CancelOrder \<Rightarrow> user \<Rightarrow> error + (fresponse \<times> fengine)" where
  "cancel_order_f st cancel usr =
     (let order_id = c_order_id cancel in
      case find_one_f (f_orders_collection st) order_id of
        None \<Rightarrow> Inl (HTTPException 404 ''Order not found'')
      | Some db_order \<Rightarrow>
          if fd_status db_order \<in> set [''filled'', ''cancelled'']
          then Inl (HTTPException 400 ''Order already finalized'')
          else
            (let symbol = fd_symbol db_order; side = fd_side db_order; price = fd_price db_order
             in case get_order_book_f (f_order_books st) symbol of (book, obs) \<Rightarrow>
               (case remove_resting_f order_id price
                       (if side = ''buy'' then fbids book else fasks book) of
                  Inl e \<Rightarrow> Inl e
                | Inr side_book' \<Rightarrow>
                   (let book' = (if side = ''buy'' then book\<lparr>fbids := side_book'\<rparr>
                                 else book\<lparr>fasks := side_book'\<rparr>)
                    in Inr ([(''order_id'', FStr order_id), (''status'', FStr ''cancelled'')],
                            st\<lparr>f_order_books := obs(upper symbol \<mapsto> book'),
                               f_orders_collection :=
                                 update_one_f (f_orders_collection st) order_id
                                   (\<lambda>d. d\<lparr>fd_status := ''cancelled''\<rparr>)\<rparr>)))))"

subsection \<open>Requests and states of the scenarios on floats\<close>

definition init_engine_f :: fengine where
  "init_engine_f = \<lparr>f_order_books = Map.empty, f_orders_collection = [], f_trades_collection = []\<rparr>"

definition order_in_f :: "string \<Rightarrow> string \<Rightarrow> pyfloat \<Rightarrow> pyfloat option \<Rightarrow> OrderIn_f" where
  "order_in_f ty sd q p =
     \<lparr>fin_symbol = ''BTC-USD'', fin_order_type = ty, fin_side = sd, fin_quantity = q, fin_price = p\<rparr>"

fun submits_f :: "fengine \<Rightarrow> (OrderIn_f \<times> string) list \<Rightarrow> fengine" where
  "submits_f st [] = st"
| "submits_f st ((order, i) # xs) =
     (case submit_order_f st order alice i of
        Inl e \<Rightarrow> submits_f st xs
      | Inr (r, st') \<Rightarrow> submits_f st' xs)"

definition fbtc ::
  "sorted_dict \<Rightarrow> sorted_dict \<Rightarrow> forder_doc list \<Rightarrow> ftrade list \<Rightarrow> fengine" where
  "fbtc bs as ds ts =
     \<lparr>f_order_books = [''BTC-USD'' \<mapsto> \<lparr>fbids = bs, fasks = as\<rparr>], f_orders_collection = ds,
      f_trades_collection = ts\<rparr>"

definition fdoc ::
  "string \<Rightarrow> string \<Rightarrow> string \<Rightarrow> pyfloat \<Rightarrow> pyfloat option \<Rightarrow> string \<Rightarrow> forder_doc" where
  "fdoc i ty sd q p status =
     \<lparr>fd_order_id = i, fd_symbol = ''BTC-USD'', fd_user = ''alice'', fd_side = sd, fd_type = ty,
      fd_quantity = q, fd_price = p, fd_status = status\<rparr>"

definition fent :: "string \<Rightarrow> pyfloat \<Rightarrow> fentry" where
  "fent i q = \<lparr>fe_order_id = i, fe_quantity = q\<rparr>"

definition ftrd :: "pyfloat \<Rightarrow> pyfloat \<Rightarrow> string \<Rightarrow> string \<Rightarrow> string \<Rightarrow> ftrade" where
  "ftrd p q maker taker sd =
     \<lparr>ft_symbol = ''BTC-USD'', ft_price = p, ft_quantity = q, ft_maker_order_id = maker,
      ft_taker_order_id = taker, ft_aggressor_side = sd\<rparr>"

text \<open>A book is crossed when some bid level is priced at or above some ask level.\<close>

definition crossed :: "fbook \<Rightarrow> bool" where
  "crossed b \<longleftrightarrow>
     list_ex (\<lambda>ask_price. list_ex (\<lambda>bid_price. fle ask_price bid_price)
                             (map fst (sd_items (fbids b))))
             (map fst (sd_items (fasks b)))"

section \<open>Lemmas about the model\<close>

subsection \<open>SortedDict lemmas\<close>

lemma map_of_split: "k \<notin> fst ` set xs \<Longrightarrow> map_of (xs @ (k, v) # ys) k = Some v"
  by (induction xs) auto

lemma sd_store_split:
  "k \<notin> fst ` set xs \<Longrightarrow> sd_store k v (xs @ (k, v0) # ys) = xs @ (k, v) # ys"
  by (induction xs) auto

lemma sd_del_split: "k \<notin> fst ` set xs \<Longrightarrow> sd_del k (xs @ (k, v0) # ys) = xs @ ys"
  by (induction xs) auto

lemma map_of_SomeD_split:
  "map_of sb k = Some v \<Longrightarrow> \<exists>xs ys. sb = xs @ (k, v) # ys \<and> k \<notin> fst ` set xs"
proof (induction sb)
  case Nil
  then show ?case by simp
next
  case (Cons a sb)
  show ?case
  proof (cases "fst a = k")
    case True
    then have "a # sb = [] @ (k, v) # sb" using Cons.prems by (cases a) auto
    then show ?thesis by (metis empty_iff image_empty list.set(1))
  next
    case False
    then obtain xs ys where "sb = xs @ (k, v) # ys" "k \<notin> fst ` set xs"
      using Cons by (cases a) auto
    then have "a # sb = (a # xs) @ (k, v) # ys \<and> k \<notin> fst ` set (a # xs)"
      using False by auto
    then show ?thesis by blast
  qed
qed

lemma match_iter_cases:
  assumes "match_iter symbol side ty price order_id s = r"
  obtains (blocked) "r = Break s"
  | (raise) e where "r = Raise e"
  | (trade) p maker rest where
      "map_of (opposite side (m_book s)) p = Some (maker # rest)"
      "marketable side price p"
      "levels side (m_book s) \<noteq> []" "p = fst (hd (levels side (m_book s)))"
      "r = (if ty = ''ioc'' then Break (fill symbol side order_id p maker rest s)
            else Continue (fill symbol side order_id p maker rest s))"
  using assms
  by (auto simp: match_iter_def get_best_price_def execute_trade_def opposite_def levels_def
      marketable_def Let_def hd_rev
      split: if_splits option.splits list.splits)

lemma match_loop_rule:
  assumes "match_loop symbol side ty price order_id s = Inr s'" and "P s"
    and step: "\<And>s p maker rest. P s \<Longrightarrow> 0 < m_remaining s \<Longrightarrow>
       map_of (opposite side (m_book s)) p = Some (maker # rest) \<Longrightarrow>
       marketable side price p \<Longrightarrow> levels side (m_book s) \<noteq> [] \<Longrightarrow>
       p = fst (hd (levels side (m_book s))) \<Longrightarrow>
       P (fill symbol side order_id p maker rest s)"
  shows "P s'"
  using assms
proof (induction symbol side ty price order_id s rule: match_loop.induct)
  case (1 symbol side ty price order_id s)
  show ?case
  proof (cases "0 < m_remaining s")
    case False
    then show ?thesis using "1.prems" by (simp add: match_loop.simps)
  next
    case True
    define r where "r = match_iter symbol side ty price order_id s"
    then have "match_iter symbol side ty price order_id s = r" by simp
    then show ?thesis
    proof (cases rule: match_iter_cases)
      case blocked
      then show ?thesis using "1.prems" True r_def by (simp add: match_loop.simps)
    next
      case (raise e)
      then show ?thesis using "1.prems" True r_def by (simp add: match_loop.simps)
    next
      case (trade p maker rest)
      have P': "P (fill symbol side order_id p maker rest s)"
        using "1.prems"(3) [OF "1.prems"(2) True trade(1-4)] .
      show ?thesis
      proof (cases "ty = ''ioc''")
        case True
        then show ?thesis using "1.prems" \<open>0 < m_remaining s\<close> trade(5) P' r_def
          by (simp add: match_loop.simps)
      next
        case False
        then have it: "match_iter symbol side ty price order_id s
                       = Continue (fill symbol side order_id p maker rest s)"
          using trade(5) r_def by simp
        have "match_loop symbol side ty price order_id (fill symbol side order_id p maker rest s) = Inr s'"
          using "1.prems"(1) True it by (simp add: match_loop.simps)
        then show ?thesis using "1.IH" [OF True it _ P'] "1.prems"(3) by blast
      qed
    qed
  qed
qed


subsection \<open>Effect of one execution\<close>

lemma fill_remaining:
  "m_remaining (fill symbol side order_id p maker rest s)
   = m_remaining s - min (m_remaining s) (e_quantity maker)"
  by (simp add: fill_def Let_def)

lemma fill_trades_executed:
  "m_trades_executed (fill symbol side order_id p maker rest s)
   = m_trades_executed s @
     [\<lparr>t_symbol = symbol, t_price = p, t_quantity = min (m_remaining s) (e_quantity maker),
       maker_order_id = e_order_id maker, taker_order_id = order_id, aggressor_side = side\<rparr>]"
  by (simp add: fill_def Let_def)

lemma fill_trades:
  "m_trades (fill symbol side order_id p maker rest s)
   = m_trades s @
     [\<lparr>t_symbol = symbol, t_price = p, t_quantity = min (m_remaining s) (e_quantity maker),
       maker_order_id = e_order_id maker, taker_order_id = order_id, aggressor_side = side\<rparr>]"
  by (simp add: fill_def Let_def insert_one_def)

lemma fill_orders:
  "m_orders (fill symbol side order_id p maker rest s)
   = (if e_quantity maker \<le> m_remaining s
      then update_one (m_orders s) (e_order_id maker) (\<lambda>d. d\<lparr>d_status := ''filled''\<rparr>)
      else update_one (m_orders s) (e_order_id maker)
             (\<lambda>d. d\<lparr>d_quantity := e_quantity maker - m_remaining s, d_status := ''partial''\<rparr>))"
  by (simp add: fill_def Let_def min_def)

lemma fill_match_price:
  "m_match_price (fill symbol side order_id p maker rest s) = Some p"
  by (simp add: fill_def Let_def)

lemma fill_own: "own side (m_book (fill symbol side order_id p maker rest s)) = own side (m_book s)"
  by (simp add: fill_def Let_def own_def)

lemma fill_opposite:
  "opposite side (m_book (fill symbol side order_id p maker rest s))
   = (if e_quantity maker \<le> m_remaining s
      then (if rest = [] then sd_del p (sd_store p [] (opposite side (m_book s)))
            else sd_store p rest (opposite side (m_book s)))
      else sd_store p (maker\<lparr>e_quantity := e_quantity maker - m_remaining s\<rparr> # rest)
             (opposite side (m_book s)))"
  by (simp add: fill_def Let_def opposite_def min_def)

lemma sd_ok_distinct: "sd_ok sb \<Longrightarrow> distinct (map fst sb)"
  by (simp add: sd_ok_def strict_sorted_iff)

lemma levels_opposite: "levels side b = (if side = ''buy'' then opposite side b else rev (opposite side b))"
  by (simp add: levels_def opposite_def)

lemma fill_levels:
  assumes ok: "sd_ok (opposite side (m_book s))"
    and lv: "levels side (m_book s) = (p, maker # rest) # lv"
  shows "levels side (m_book (fill symbol side order_id p maker rest s))
   = (if e_quantity maker \<le> m_remaining s
      then (if rest = [] then lv else (p, rest) # lv)
      else (p, maker\<lparr>e_quantity := e_quantity maker - m_remaining s\<rparr> # rest) # lv)"
proof (cases "side = ''buy''")
  case True
  then have sb: "opposite side (m_book s) = [] @ (p, maker # rest) # lv"
    using lv by (simp add: levels_opposite)
  have "levels side (m_book (fill symbol side order_id p maker rest s))
        = opposite side (m_book (fill symbol side order_id p maker rest s))"
    using True by (simp add: levels_opposite)
  then show ?thesis
    unfolding fill_opposite sb by simp
next
  case False
  then have "rev (opposite side (m_book s)) = (p, maker # rest) # lv"
    using lv by (simp add: levels_opposite)
  then have sb: "opposite side (m_book s) = rev lv @ (p, maker # rest) # []"
    by (metis rev_rev_ident rev.simps(2) append.simps)
  have "distinct (map fst (opposite side (m_book s)))" using ok by (rule sd_ok_distinct)
  then have notin: "p \<notin> fst ` set (rev lv)" unfolding sb by auto
  have "levels side (m_book (fill symbol side order_id p maker rest s))
        = rev (opposite side (m_book (fill symbol side order_id p maker rest s)))"
    using False by (simp add: levels_opposite)
  then show ?thesis
    unfolding fill_opposite sb
    by (simp add: sd_store_split [OF notin] sd_del_split [OF notin])
qed

subsection \<open>Well-formed sides\<close>

lemma sd_del_store: "sd_del k (sd_store k v sb) = sd_del k sb"
  by (induction sb) auto

lemma map_fst_sd_store: "map fst (sd_store k v sb) = map fst sb"
  by (induction sb) auto

lemma set_sd_store: "set (sd_store k v sb) \<subseteq> insert (k, v) (set sb)"
  by (induction sb) (auto split: if_splits)

lemma set_sd_del: "set (sd_del k sb) \<subseteq> set sb"
  by (induction sb) (auto split: if_splits)

lemma sorted_sd_del: "sorted_wrt (<) (map fst sb) \<Longrightarrow> sorted_wrt (<) (map fst (sd_del k sb))"
  by (induction sb) (use set_sd_del in \<open>auto, fastforce\<close>)

lemma sd_ok_store:
  assumes "sd_ok sb" "v \<noteq> []" "\<forall>e \<in> set v. 0 < e_quantity e"
  shows "sd_ok (sd_store k v sb)"
  using assms set_sd_store [of k v sb]
  unfolding sd_ok_def map_fst_sd_store by fastforce

lemma sd_ok_del: "sd_ok sb \<Longrightarrow> sd_ok (sd_del k sb)"
  using set_sd_del [of k sb] sorted_sd_del [of sb k] unfolding sd_ok_def by fastforce

lemma sd_ok_queue:
  "sd_ok sb \<Longrightarrow> map_of sb k = Some q \<Longrightarrow> q \<noteq> [] \<and> (\<forall>e \<in> set q. 0 < e_quantity e)"
  by (auto simp: sd_ok_def dest!: map_of_SomeD)

lemma book_ok_sides: "book_ok b \<longleftrightarrow> sd_ok (own side b) \<and> sd_ok (opposite side b)"
  by (auto simp: book_ok_def own_def opposite_def)

lemma fill_sd_ok:
  assumes ok: "sd_ok (opposite side (m_book s))"
    and q: "map_of (opposite side (m_book s)) p = Some (maker # rest)"
  shows "sd_ok (opposite side (m_book (fill symbol side order_id p maker rest s)))"
proof -
  have pos: "0 < e_quantity maker" "\<forall>e \<in> set rest. 0 < e_quantity e"
    using sd_ok_queue [OF ok q] by auto
  show ?thesis
    unfolding fill_opposite using ok pos
    by (auto simp: sd_del_store intro!: sd_ok_del sd_ok_store)
qed

lemma fill_book_ok:
  assumes "book_ok (m_book s)"
    and "map_of (opposite side (m_book s)) p = Some (maker # rest)"
  shows "book_ok (m_book (fill symbol side order_id p maker rest s))"
  using assms fill_sd_ok [of side s p maker rest symbol order_id]
  by (simp add: book_ok_sides [of _ side] fill_own)

lemma levels_hd_map_of:
  assumes "sd_ok (opposite side b)" "levels side b = (p, q) # lv"
  shows "map_of (opposite side b) p = Some q"
proof (cases "side = ''buy''")
  case True
  then show ?thesis using assms(2) by (simp add: levels_opposite)
next
  case False
  then have "rev (opposite side b) = (p, q) # lv"
    using assms(2) by (simp add: levels_opposite)
  then have sb: "opposite side b = rev lv @ (p, q) # []"
    by (metis rev_rev_ident rev.simps(2) append.simps)
  have "distinct (map fst (opposite side b))" using assms(1) by (rule sd_ok_distinct)
  then have "p \<notin> fst ` set (rev lv)" unfolding sb by auto
  then show ?thesis unfolding sb by (rule map_of_split)
qed

text \<open>One iteration from a well-formed opposite side, in terms of the priority view.\<close>

lemma match_iter_ok_cases:
  assumes ok: "sd_ok (opposite side (m_book s))"
  obtains (blocked) "match_iter symbol side ty price order_id s = Break s"
      "levels side (m_book s) = [] \<or> \<not> marketable side price (fst (hd (levels side (m_book s))))"
  | (trade) p maker rest lv where
      "levels side (m_book s) = (p, maker # rest) # lv"
      "map_of (opposite side (m_book s)) p = Some (maker # rest)"
      "marketable side price p"
      "match_iter symbol side ty price order_id s =
         (if ty = ''ioc'' then Break (fill symbol side order_id p maker rest s)
          else Continue (fill symbol side order_id p maker rest s))"
proof (cases "levels side (m_book s)")
  case Nil
  then have "match_iter symbol side ty price order_id s = Break s"
    by (auto simp: match_iter_def get_best_price_def levels_def split: if_splits)
  then show ?thesis using Nil blocked by simp
next
  case (Cons l lv)
  obtain p q where l: "l = (p, q)" by (cases l)
  have mo: "map_of (opposite side (m_book s)) p = Some q"
    using levels_hd_map_of [OF ok] Cons l by simp
  from sd_ok_queue [OF ok mo] obtain maker rest where q: "q = maker # rest"
    by (cases q) auto
  have best: "(if side = ''buy'' then snd (get_best_price (bids (m_book s)) (asks (m_book s)))
               else fst (get_best_price (bids (m_book s)) (asks (m_book s)))) = Some p"
    using Cons l by (auto simp: get_best_price_def levels_def hd_rev split: if_splits)
  show ?thesis
  proof (cases "marketable side price p")
    case False
    then have "match_iter symbol side ty price order_id s = Break s"
      using best by (auto simp: match_iter_def marketable_def split: if_splits option.splits prod.splits)
    then show ?thesis using blocked False Cons l by simp
  next
    case True
    then have "match_iter symbol side ty price order_id s = execute_trade symbol side ty order_id p s"
      using best by (auto simp: match_iter_def marketable_def split: if_splits option.splits prod.splits)
    then have "match_iter symbol side ty price order_id s =
         (if ty = ''ioc'' then Break (fill symbol side order_id p maker rest s)
          else Continue (fill symbol side order_id p maker rest s))"
      using mo q by (simp add: execute_trade_def opposite_def Let_def)
    then show ?thesis using trade [of p maker rest lv] Cons l q mo True by simp
  qed
qed


lemma levels_hd:
  assumes ok: "sd_ok (opposite side b)" and mo: "map_of (opposite side b) p = Some q"
    and ne: "levels side b \<noteq> []" and p: "p = fst (hd (levels side b))"
  shows "\<exists>lv. levels side b = (p, q) # lv"
proof -
  obtain q' lv where lv: "levels side b = (p, q') # lv"
    using ne p by (cases "levels side b") auto
  from levels_hd_map_of [OF ok lv] mo have "q' = q" by simp
  then show ?thesis using lv by blast
qed

lemma match_loop_ok_rule:
  assumes run: "match_loop symbol side ty price order_id s = Inr s'"
    and ok: "sd_ok (opposite side (m_book s))" and P: "P s"
    and step: "\<And>s p maker rest lv. P s \<Longrightarrow> sd_ok (opposite side (m_book s)) \<Longrightarrow>
       0 < m_remaining s \<Longrightarrow> levels side (m_book s) = (p, maker # rest) # lv \<Longrightarrow>
       marketable side price p \<Longrightarrow> 0 < e_quantity maker \<Longrightarrow>
       P (fill symbol side order_id p maker rest s)"
  shows "P s' \<and> sd_ok (opposite side (m_book s'))"
proof (rule match_loop_rule [OF run, where P = "\<lambda>s. P s \<and> sd_ok (opposite side (m_book s))"])
  show "P s \<and> sd_ok (opposite side (m_book s))" using P ok by simp
next
  fix s p maker rest
  assume a: "P s \<and> sd_ok (opposite side (m_book s))" "0 < m_remaining s"
    "map_of (opposite side (m_book s)) p = Some (maker # rest)"
    "marketable side price p" "levels side (m_book s) \<noteq> []"
    "p = fst (hd (levels side (m_book s)))"
  from levels_hd [OF _ a(3) a(5) a(6)] a(1) obtain lv
    where lv: "levels side (m_book s) = (p, maker # rest) # lv" by blast
  have "0 < e_quantity maker" using sd_ok_queue [OF _ a(3)] a(1) by simp
  then have "P (fill symbol side order_id p maker rest s)"
    using step [OF _ _ a(2) lv a(4)] a(1) by blast
  then show "P (fill symbol side order_id p maker rest s)
     \<and> sd_ok (opposite side (m_book (fill symbol side order_id p maker rest s)))"
    using fill_sd_ok [OF _ a(3)] a(1) by blast
qed

lemma match_loop_exit:
  assumes "sd_ok (opposite side (m_book s))"
  shows "\<exists>s'. match_loop symbol side ty price order_id s = Inr s'
     \<and> (m_remaining s' \<le> 0 \<or> ty = ''ioc'' \<or> levels side (m_book s') = []
        \<or> \<not> marketable side price (fst (hd (levels side (m_book s')))))"
  using assms
proof (induction symbol side ty price order_id s rule: match_loop.induct)
  case (1 symbol side ty price order_id s)
  show ?case
  proof (cases "0 < m_remaining s")
    case False
    then show ?thesis by (simp add: match_loop.simps)
  next
    case True
    from "1.prems" show ?thesis
    proof (cases rule: match_iter_ok_cases [where symbol = symbol and ty = ty and price = price and order_id = order_id])
      case blocked
      then show ?thesis using True by (simp add: match_loop.simps)
    next
      case (trade p maker rest lv)
      show ?thesis
      proof (cases "ty = ''ioc''")
        case True
        then show ?thesis using trade(4) \<open>0 < m_remaining s\<close> by (simp add: match_loop.simps)
      next
        case False
        then have it: "match_iter symbol side ty price order_id s
                       = Continue (fill symbol side order_id p maker rest s)"
          using trade(4) by simp
        have ok': "sd_ok (opposite side (m_book (fill symbol side order_id p maker rest s)))"
          using fill_sd_ok [OF "1.prems" trade(2)] .
        have "match_loop symbol side ty price order_id s
              = match_loop symbol side ty price order_id (fill symbol side order_id p maker rest s)"
          using True it by (simp add: match_loop.simps)
        then show ?thesis using "1.IH" [OF True it ok'] by simp
      qed
    qed
  qed
qed

subsection \<open>The priority view\<close>

lemma fill_priority:
  assumes ok: "sd_ok (opposite side (m_book s))"
    and lv: "levels side (m_book s) = (p, maker # rest) # lv"
  shows "priority side (m_book s) = (p, maker) # tl (priority side (m_book s))"
    and "priority side (m_book (fill symbol side order_id p maker rest s))
         = (if e_quantity maker \<le> m_remaining s then tl (priority side (m_book s))
            else (p, maker\<lparr>e_quantity := e_quantity maker - m_remaining s\<rparr>)
                 # tl (priority side (m_book s)))"
  unfolding priority_def fill_levels [OF ok lv] lv by simp_all

lemma match_loop_trades_prefix:
  assumes run: "match_loop symbol side ty price order_id s = Inr s'"
    and ok: "sd_ok (opposite side (m_book s))"
  shows "\<exists>ts. m_trades_executed s' = m_trades_executed s @ ts
     \<and> map (\<lambda>t. (t_price t, maker_order_id t)) ts
        = take (length ts) (map (\<lambda>(p, e). (p, e_order_id e)) (priority side (m_book s)))
     \<and> (\<forall>t \<in> set ts. marketable side price (t_price t))"
proof -
  define PR where "PR = map (\<lambda>(p, e). (p, e_order_id e)) (priority side (m_book s))"
  define P where "P = (\<lambda>s1::match_state. \<exists>ts. m_trades_executed s1 = m_trades_executed s @ ts
     \<and> map (\<lambda>t. (t_price t, maker_order_id t)) ts = take (length ts) PR
     \<and> (\<forall>t \<in> set ts. marketable side price (t_price t))
     \<and> (0 < m_remaining s1 \<longrightarrow>
          map (\<lambda>(p, e). (p, e_order_id e)) (priority side (m_book s1)) = drop (length ts) PR))"
  have "P s' \<and> sd_ok (opposite side (m_book s'))"
  proof (rule match_loop_ok_rule [OF run ok])
    show "P s" unfolding P_def PR_def by simp
  next
    fix s1 p maker rest lv
    assume P1: "P s1" and ok1: "sd_ok (opposite side (m_book s1))" and r: "0 < m_remaining s1"
      and lv: "levels side (m_book s1) = (p, maker # rest) # lv"
      and m: "marketable side price p"
    let ?s2 = "fill symbol side order_id p maker rest s1"
    from P1 r obtain ts where ts: "m_trades_executed s1 = m_trades_executed s @ ts"
      "map (\<lambda>t. (t_price t, maker_order_id t)) ts = take (length ts) PR"
      "\<forall>t \<in> set ts. marketable side price (t_price t)"
      "map (\<lambda>(p, e). (p, e_order_id e)) (priority side (m_book s1)) = drop (length ts) PR"
      unfolding P_def by blast
    have dr: "drop (length ts) PR
       = (p, e_order_id maker) # map (\<lambda>(p, e). (p, e_order_id e)) (tl (priority side (m_book s1)))"
      using ts(4) fill_priority(1) [OF ok1 lv] by (metis (no_types, lifting) case_prod_conv list.simps(9))
    then have len: "length ts < length PR"
      by (metis drop_all list.distinct(1) not_le)
    have nth: "PR ! length ts = (p, e_order_id maker)"
      using dr len by (metis Cons_nth_drop_Suc list.inject)
    have dr2: "drop (Suc (length ts)) PR
       = map (\<lambda>(p, e). (p, e_order_id e)) (tl (priority side (m_book s1)))"
      using dr len by (metis Cons_nth_drop_Suc list.inject)
    let ?t = "\<lparr>t_symbol = symbol, t_price = p, t_quantity = min (m_remaining s1) (e_quantity maker),
       maker_order_id = e_order_id maker, taker_order_id = order_id, aggressor_side = side\<rparr>"
    have 1: "m_trades_executed ?s2 = m_trades_executed s @ (ts @ [?t])"
      using ts(1) by (simp add: fill_trades_executed)
    have 2: "map (\<lambda>t. (t_price t, maker_order_id t)) (ts @ [?t]) = take (length (ts @ [?t])) PR"
      using ts(2) nth len by (simp add: take_Suc_conv_app_nth)
    have 3: "\<forall>t \<in> set (ts @ [?t]). marketable side price (t_price t)"
      using ts(3) m by simp
    have 4: "0 < m_remaining ?s2 \<longrightarrow>
          map (\<lambda>(p, e). (p, e_order_id e)) (priority side (m_book ?s2)) = drop (length (ts @ [?t])) PR"
      using dr2 by (simp add: fill_remaining fill_priority(2) [OF ok1 lv] min_def split: if_splits)
    show "P ?s2" unfolding P_def using 1 2 3 4 by blast
  qed
  then show ?thesis unfolding P_def PR_def by blast
qed

subsection \<open>The collections\<close>

lemma find_one_insert_one:
  "find_one (insert_one db d) i =
     (case find_one db i of Some x \<Rightarrow> Some x | None \<Rightarrow> if d_order_id d = i then Some d else None)"
  by (induction db) (auto simp: insert_one_def)

lemma find_one_update_one:
  assumes "\<And>d. d_order_id (f d) = d_order_id d"
  shows "find_one (update_one db j f) i = (if i = j then map_option f (find_one db i) else find_one db i)"
  using assms by (induction db) auto

lemma find_one_id: "find_one db i = Some d \<Longrightarrow> d_order_id d = i"
  by (induction db) (auto split: if_splits)

lemma find_one_fill:
  "find_one (m_orders (fill symbol side order_id p maker rest s)) i \<noteq> None
   \<longleftrightarrow> find_one (m_orders s) i \<noteq> None"
  by (simp add: fill_orders find_one_update_one)

lemma match_loop_find_one:
  assumes "match_loop symbol side ty price order_id s = Inr s'"
    and "find_one (m_orders s) i \<noteq> None"
  shows "find_one (m_orders s') i \<noteq> None"
  using assms(1,2)
  by (rule match_loop_rule [where P = "\<lambda>s. find_one (m_orders s) i \<noteq> None"])
     (use find_one_fill in blast)


subsection \<open>Evaluation of concrete requests\<close>

lemmas eval_defs = submit_order_def cancel_order_def remove_resting_def get_order_book_def get_best_price_def
  match_iter_def execute_trade_def fill_def handle_remaining_def fok_available_def
  insert_one_def init_engine_def order_in_def alice_def bob_def upper_def lower_def
  upper_char_def lower_char_def book_of_def Let_def match_loop.simps
  btc_def doc_def ent_def trd_def book_ok_def sd_ok_def opposite_def taker_price_def
  NotFound_def AlreadyTerminal_def start_state_def new_doc_def made_def taken_def
  cancel_order_endpoint_def submit_order_endpoint_def get_current_user_def fake_users_db_def

subsection \<open>Decomposition of submit_order\<close>

lemma upper_char_idem: "upper_char (upper_char c) = upper_char c"
  by (simp add: upper_char_def)

lemma upper_idem: "upper (upper s) = upper s"
  by (simp add: upper_def upper_char_idem)

lemma get_order_book_book_of:
  "get_order_book (order_books st) (upper x)
   = (book_of st (upper x),
      (order_books st)(upper x \<mapsto> book_of st (upper x)))"
  by (auto simp: get_order_book_def book_of_def upper_idem Let_def split: option.splits)

lemma handle_remaining_trades:
  "m_trades_executed (handle_remaining side ty price order_id s) = m_trades_executed s"
  "m_trades (handle_remaining side ty price order_id s) = m_trades s"
  by (auto simp: handle_remaining_def Let_def split: option.splits)

lemma submit_order_unfold:
  "submit_order st order usr order_id =
     (if in_quantity order \<le> 0 then Inl (HTTPException 400 ''Quantity must be positive'')
      else if lower (in_order_type order) \<in> set [''limit'', ''ioc'', ''fok''] \<and> in_price order = None
      then Inl (HTTPException 400 ''Limit orders require a price'')
      else if lower (in_order_type order) = ''fok''
          \<and> fok_available (lower (in_side order)) (taker_price order)
               (book_of st (upper (in_symbol order))) < in_quantity order
      then Inr ([(''order_id'', JStr order_id), (''status'', JStr ''cancelled''), (''filled'', JBool False)],
             st\<lparr>order_books := (order_books st)(upper (in_symbol order) \<mapsto> book_of st (upper (in_symbol order))),
                 orders_collection := update_one (insert_one (orders_collection st) (new_doc order usr order_id))
                    order_id (\<lambda>d. d\<lparr>d_status := ''cancelled''\<rparr>)\<rparr>)
      else (case match_loop (upper (in_symbol order)) (lower (in_side order)) (lower (in_order_type order))
                  (taker_price order) order_id (start_state st order usr order_id) of
              Inl e \<Rightarrow> Inl e
            | Inr s1 \<Rightarrow> Inr ([(''order_id'', JStr order_id), (''trades'', JTrades (m_trades_executed s1))],
                st\<lparr>order_books := (order_books st)(upper (in_symbol order) \<mapsto>
                    m_book (handle_remaining (lower (in_side order)) (lower (in_order_type order))
                       (taker_price order) order_id s1)),
                 orders_collection := m_orders (handle_remaining (lower (in_side order))
                       (lower (in_order_type order)) (taker_price order) order_id s1),
                 trades_collection := m_trades s1\<rparr>)))"
  unfolding submit_order_def Let_def get_order_book_book_of taker_price_def [symmetric]
    new_doc_def [symmetric] start_state_def [symmetric] upper_idem handle_remaining_trades
    prod.case fun_upd_upd
  by (rule refl)

lemma submit_order_cases [consumes 1, case_names rejected matched]:
  assumes "submit_order st order usr order_id = Inr (r, st')"
  obtains (rejected)
      "lower (in_order_type order) = ''fok''"
      "fok_available (lower (in_side order)) (taker_price order)
         (book_of st (upper (in_symbol order))) < in_quantity order"
      "r = [(''order_id'', JStr order_id), (''status'', JStr ''cancelled''), (''filled'', JBool False)]"
      "st' = st\<lparr>order_books := (order_books st)(upper (in_symbol order) \<mapsto> book_of st (upper (in_symbol order))),
                 orders_collection := update_one (insert_one (orders_collection st) (new_doc order usr order_id))
                    order_id (\<lambda>d. d\<lparr>d_status := ''cancelled''\<rparr>)\<rparr>"
  | (matched) s1 where
      "match_loop (upper (in_symbol order)) (lower (in_side order)) (lower (in_order_type order))
         (taker_price order) order_id (start_state st order usr order_id) = Inr s1"
      "\<not> (lower (in_order_type order) = ''fok''
          \<and> fok_available (lower (in_side order)) (taker_price order)
               (book_of st (upper (in_symbol order))) < in_quantity order)"
      "r = [(''order_id'', JStr order_id), (''trades'', JTrades (m_trades_executed s1))]"
      "st' = st\<lparr>order_books := (order_books st)(upper (in_symbol order) \<mapsto>
                    m_book (handle_remaining (lower (in_side order)) (lower (in_order_type order))
                       (taker_price order) order_id s1)),
                 orders_collection := m_orders (handle_remaining (lower (in_side order))
                       (lower (in_order_type order)) (taker_price order) order_id s1),
                 trades_collection := m_trades s1\<rparr>"
  using assms unfolding submit_order_unfold
  by (auto split: if_splits sum.splits)


lemma start_state_simps:
  "m_book (start_state st order usr order_id) = book_of st (upper (in_symbol order))"
  "m_remaining (start_state st order usr order_id) = in_quantity order"
  "m_trades_executed (start_state st order usr order_id) = []"
  "m_match_price (start_state st order usr order_id) = None"
  "m_orders (start_state st order usr order_id)
     = insert_one (orders_collection st) (new_doc order usr order_id)"
  "m_trades (start_state st order usr order_id) = trades_collection st"
  by (simp_all add: start_state_def)

lemma set_priority:
  "(p, e) \<in> set (priority side b) \<longleftrightarrow> (\<exists>q. (p, q) \<in> set (opposite side b) \<and> e \<in> set q)"
  by (auto simp: priority_def levels_def opposite_def)

lemma submit_order_trades_prefix:
  assumes sub: "submit_order st order usr order_id = Inr (r, st')"
    and ts: "map_of r ''trades'' = Some (JTrades ts)"
    and ok: "book_ok (book_of st (upper (in_symbol order)))"
  shows "map (\<lambda>t. (t_price t, maker_order_id t)) ts
        = take (length ts) (map (\<lambda>(p, e). (p, e_order_id e))
            (priority (lower (in_side order)) (book_of st (upper (in_symbol order)))))
     \<and> (\<forall>t \<in> set ts. marketable (lower (in_side order)) (taker_price order) (t_price t))"
  using sub
proof (cases rule: submit_order_cases)
  case rejected
  then show ?thesis using ts by simp
next
  case (matched s1)
  have "sd_ok (opposite (lower (in_side order)) (m_book (start_state st order usr order_id)))"
    using ok by (simp add: start_state_simps book_ok_sides [of _ "lower (in_side order)"])
  from match_loop_trades_prefix [OF matched(1) this] matched(3) ts
  show ?thesis by (simp add: start_state_simps)
qed

lemma sorted_wrt_flat:
  assumes "sorted_wrt R (map fst lv)" and "\<And>x. R x x"
  shows "sorted_wrt R (map fst (concat (map (\<lambda>(p, q). map (Pair p) q) lv)))"
  using assms(1)
proof (induction lv)
  case Nil
  then show ?case by simp
next
  case (Cons l lv)
  obtain p q where l: "l = (p, q)" by (cases l)
  have 1: "sorted_wrt R (map fst (map (Pair p) q))"
    using assms(2) by (induction q) auto
  have 2: "sorted_wrt R (map fst (concat (map (\<lambda>(p, q). map (Pair p) q) lv)))"
    using Cons by simp
  have 3: "\<forall>x \<in> set (map fst (map (Pair p) q)).
             \<forall>y \<in> set (map fst (concat (map (\<lambda>(p, q). map (Pair p) q) lv))). R x y"
    using Cons.prems l by fastforce
  show ?case using 1 2 3 unfolding l by (simp add: sorted_wrt_append)
qed

lemma priority_best_first:
  assumes "sd_ok (opposite side b)"
  shows "if side = ''buy'' then sorted_wrt (\<le>) (map fst (priority side b))
         else sorted_wrt (\<ge>) (map fst (priority side b))"
proof (cases "side = ''buy''")
  case True
  have "sorted_wrt (<) (map fst (asks b))"
    using assms True by (simp add: sd_ok_def opposite_def)
  then have "sorted_wrt (\<le>) (map fst (asks b))"
    by (rule sorted_wrt_mono_rel [rotated]) simp
  then show ?thesis using True sorted_wrt_flat [of "(\<le>)" "asks b"]
    by (simp add: priority_def levels_def)
next
  case False
  have "sorted_wrt (<) (map fst (bids b))"
    using assms False by (simp add: sd_ok_def opposite_def)
  then have "sorted_wrt (\<lambda>x y. y < x) (map fst (rev (bids b)))"
    by (simp add: rev_map [symmetric] sorted_wrt_rev)
  then have "sorted_wrt (\<ge>) (map fst (rev (bids b)))"
    by (rule sorted_wrt_mono_rel [rotated]) simp
  then show ?thesis using False sorted_wrt_flat [of "(\<ge>)" "rev (bids b)"]
    by (simp add: priority_def levels_def)
qed

lemma priority_fifo:
  assumes "map_of (opposite side b) p = Some q" and "i < length q"
  shows "\<exists>k. k + length q \<le> length (priority side b)
            \<and> (\<forall>i < length q. priority side b ! (k + i) = (p, q ! i))"
proof -
  have "(p, q) \<in> set (levels side b)"
    using map_of_SomeD [OF assms(1)] by (auto simp: levels_def opposite_def split: if_splits)
  then obtain xs ys where lv: "levels side b = xs @ (p, q) # ys"
    by (meson split_list)
  let ?f = "\<lambda>lv. concat (map (\<lambda>(p, q). map (Pair p) q) lv)"
  have pr: "priority side b = ?f xs @ map (Pair p) q @ ?f ys"
    by (simp add: priority_def lv)
  have "\<forall>i < length q. priority side b ! (length (?f xs) + i) = (p, q ! i)"
    unfolding pr by (simp add: nth_append)
  moreover have "length (?f xs) + length q \<le> length (priority side b)"
    unfolding pr by simp
  ultimately show ?thesis by blast
qed

subsection \<open>The FOK pre-check and the loop\<close>

lemma fok_available_levels: "fok_available side price b = avail side price (levels side b)"
proof (cases "side = ''buy''")
  case True
  then show ?thesis
    by (cases price) (simp_all add: fok_available_def avail_def levels_def marketable_def)
next
  case False
  have "sum_list (map f (rev xs)) = sum_list (map f xs)" for f :: "rat \<times> entry list \<Rightarrow> rat" and xs
    by (simp add: rev_map [symmetric] sum_list_rev)
  then show ?thesis using False
    by (cases price) (simp_all add: fok_available_def avail_def levels_def marketable_def)
qed

lemma levels_sorted:
  assumes "sd_ok (opposite side b)"
  shows "sorted_wrt (\<lambda>x y. if side = ''buy'' then x < y else y < x) (map fst (levels side b))"
proof (cases "side = ''buy''")
  case True
  then show ?thesis using assms by (simp add: sd_ok_def levels_opposite)
next
  case False
  have "sorted_wrt (<) (map fst (opposite side b))" using assms by (simp add: sd_ok_def)
  then have "sorted_wrt (\<lambda>x y. y < x) (map fst (rev (opposite side b)))"
    by (simp add: rev_map [symmetric] sorted_wrt_rev)
  then show ?thesis using False by (simp add: levels_opposite)
qed

lemma sum_list_all_zero: "(\<forall>x \<in> set xs. f x = 0) \<Longrightarrow> sum_list (map f xs) = (0::rat)"
  by (induction xs) auto

lemma avail_blocked:
  assumes ok: "sd_ok (opposite side b)"
    and bl: "levels side b = [] \<or> \<not> marketable side price (fst (hd (levels side b)))"
  shows "avail side price (levels side b) = 0"
proof (cases "levels side b")
  case Nil
  then show ?thesis by (simp add: avail_def)
next
  case (Cons l lv)
  then have nm: "\<not> marketable side price (fst l)" using bl by simp
  have "\<forall>x \<in> set lv. if side = ''buy'' then fst l < fst x else fst x < fst l"
    using levels_sorted [OF ok] Cons by auto
  then have "\<forall>x \<in> set (l # lv). \<not> marketable side price (fst x)"
    using nm by (auto simp: marketable_def split: option.splits if_splits)
  then show ?thesis unfolding Cons avail_def
    by (intro sum_list_all_zero) (auto simp: case_prod_beta)
qed

lemma fill_avail:
  assumes ok: "sd_ok (opposite side (m_book s))"
    and lv: "levels side (m_book s) = (p, maker # rest) # lv"
    and m: "marketable side price p"
  shows "avail side price (levels side (m_book (fill symbol side order_id p maker rest s)))
         = avail side price (levels side (m_book s)) - min (m_remaining s) (e_quantity maker)"
  unfolding fill_levels [OF ok lv] lv using m
  by (simp add: avail_def min_def)

lemma match_loop_fok:
  assumes run: "match_loop symbol side ty price order_id s = Inr s'"
    and ok: "sd_ok (opposite side (m_book s))"
    and r0: "0 \<le> m_remaining s"
  shows "0 \<le> m_remaining s'
     \<and> avail side price (levels side (m_book s')) - m_remaining s'
         = avail side price (levels side (m_book s)) - m_remaining s
     \<and> sum_list (map t_quantity (m_trades_executed s')) + m_remaining s'
         = sum_list (map t_quantity (m_trades_executed s)) + m_remaining s"
proof -
  define P where "P = (\<lambda>s1::match_state. 0 \<le> m_remaining s1
     \<and> avail side price (levels side (m_book s1)) - m_remaining s1
         = avail side price (levels side (m_book s)) - m_remaining s
     \<and> sum_list (map t_quantity (m_trades_executed s1)) + m_remaining s1
         = sum_list (map t_quantity (m_trades_executed s)) + m_remaining s)"
  have "P s' \<and> sd_ok (opposite side (m_book s'))"
  proof (rule match_loop_ok_rule [OF run ok])
    show "P s" using r0 by (simp add: P_def)
  next
    fix s1 p maker rest lv
    assume "P s1" "sd_ok (opposite side (m_book s1))" "0 < m_remaining s1"
      "levels side (m_book s1) = (p, maker # rest) # lv" "marketable side price p"
      "0 < e_quantity maker"
    then show "P (fill symbol side order_id p maker rest s1)"
      unfolding P_def
      by (simp add: fill_avail fill_remaining fill_trades_executed min_def)
  qed
  then show ?thesis by (simp add: P_def)
qed

lemma match_loop_trades_log:
  assumes run: "match_loop symbol side ty price order_id s = Inr s'"
  shows "\<exists>ts. m_trades_executed s' = m_trades_executed s @ ts \<and> m_trades s' = m_trades s @ ts"
  by (rule match_loop_rule [OF run,
        where P = "\<lambda>s1. \<exists>ts. m_trades_executed s1 = m_trades_executed s @ ts
                          \<and> m_trades s1 = m_trades s @ ts"])
     (auto simp: fill_trades fill_trades_executed)

lemma books_after_reject:
  "book_of (st\<lparr>order_books := (order_books st)(k \<mapsto> book_of st k), orders_collection := ds\<rparr>) x
   = book_of st x"
  by (simp add: book_of_def)

subsection \<open>No crossed book\<close>

lemma sorted_last_max:
  "sorted_wrt (<) xs \<Longrightarrow> x \<in> set xs \<Longrightarrow> x \<le> (last xs :: rat)"
  by (induction xs) (auto simp: less_imp_le)

lemma sorted_hd_min:
  "sorted_wrt (<) xs \<Longrightarrow> x \<in> set xs \<Longrightarrow> (hd xs :: rat) \<le> x"
  by (induction xs) (auto simp: less_imp_le)

lemma uncrossed_iff:
  assumes "book_ok b"
  shows "uncrossed b \<longleftrightarrow> (\<forall>bp \<in> fst ` set (bids b). \<forall>ap \<in> fst ` set (asks b). bp < ap)"
proof
  assume u: "uncrossed b"
  show "\<forall>bp \<in> fst ` set (bids b). \<forall>ap \<in> fst ` set (asks b). bp < ap"
  proof (intro ballI)
    fix bp ap assume bp: "bp \<in> fst ` set (bids b)" and ap: "ap \<in> fst ` set (asks b)"
    then have ne: "bids b \<noteq> []" "asks b \<noteq> []" by auto
    have sb: "sorted_wrt (<) (map fst (bids b))" and sa: "sorted_wrt (<) (map fst (asks b))"
      using assms by (auto simp: book_ok_def sd_ok_def)
    have "bp \<le> last (map fst (bids b))" using sorted_last_max [OF sb] bp by simp
    moreover have "hd (map fst (asks b)) \<le> ap" using sorted_hd_min [OF sa] ap by simp
    moreover have "fst (last (bids b)) < fst (hd (asks b))"
      using u ne by (simp add: uncrossed_def get_best_price_def)
    ultimately show "bp < ap" using ne by (simp add: last_map hd_map)
  qed
next
  assume a: "\<forall>bp \<in> fst ` set (bids b). \<forall>ap \<in> fst ` set (asks b). bp < ap"
  show "uncrossed b"
    using a by (auto simp: uncrossed_def get_best_price_def)
qed

lemma uncrossed_sides:
  assumes "book_ok b"
  shows "uncrossed b \<longleftrightarrow>
    (\<forall>x \<in> fst ` set (own side b). \<forall>y \<in> fst ` set (opposite side b).
        if side = ''buy'' then x < y else y < x)"
  unfolding uncrossed_iff [OF assms] by (auto simp: own_def opposite_def)

lemma keys_sd_store: "fst ` set (sd_store k v sb) = fst ` set sb"
  using map_fst_sd_store [of k v sb] by (metis list.set_map)

lemma keys_sd_del: "fst ` set (sd_del k sb) \<subseteq> fst ` set sb"
  using set_sd_del [of k sb] by blast

lemma fill_keys:
  "fst ` set (opposite side (m_book (fill symbol side order_id p maker rest s)))
   \<subseteq> fst ` set (opposite side (m_book s))"
  unfolding fill_opposite using keys_sd_del [of p "sd_store p [] (opposite side (m_book s))"]
  by (auto simp: keys_sd_store simp del: sd_del_store)

lemma fill_uncrossed:
  assumes "book_ok (m_book s)" "uncrossed (m_book s)"
    and "map_of (opposite side (m_book s)) p = Some (maker # rest)"
  shows "uncrossed (m_book (fill symbol side order_id p maker rest s))"
proof -
  have ok': "book_ok (m_book (fill symbol side order_id p maker rest s))"
    using fill_book_ok [OF assms(1,3)] .
  show ?thesis
    using assms(2) fill_keys [of side symbol order_id p maker rest s]
    unfolding uncrossed_sides [OF ok', of side] uncrossed_sides [OF assms(1), of side] fill_own
    by (meson subsetD)
qed

lemma match_loop_book_inv:
  assumes run: "match_loop symbol side ty price order_id s = Inr s'"
    and "book_ok (m_book s)" "uncrossed (m_book s)"
  shows "book_ok (m_book s') \<and> uncrossed (m_book s')"
  by (rule match_loop_rule [OF run, where P = "\<lambda>s. book_ok (m_book s) \<and> uncrossed (m_book s)"])
     (use assms(2,3) fill_book_ok fill_uncrossed in blast)+


lemma blocked_all:
  assumes ok: "sd_ok (opposite side b)"
    and bl: "levels side b = [] \<or> \<not> marketable side price (fst (hd (levels side b)))"
  shows "\<forall>y \<in> fst ` set (opposite side b). \<not> marketable side price y"
proof (cases "levels side b")
  case Nil
  then show ?thesis by (simp add: levels_opposite split: if_splits)
next
  case (Cons l lv)
  then have nm: "\<not> marketable side price (fst l)" using bl by simp
  have "\<forall>x \<in> set lv. if side = ''buy'' then fst l < fst x else fst x < fst l"
    using levels_sorted [OF ok] Cons by auto
  then have "\<forall>x \<in> set (l # lv). \<not> marketable side price (fst x)"
    using nm by (auto simp: marketable_def split: option.splits if_splits)
  moreover have "set (opposite side b) = set (levels side b)"
    by (simp add: levels_opposite)
  ultimately show ?thesis using Cons by auto
qed

subsection \<open>Resting the remainder\<close>

lemma sd_store_insert: "sd_store k v (sd_insert k w sb) = sd_insert k v sb"
  by (induction sb) auto

lemma keys_sd_insert: "fst ` set (sd_insert k v sb) = insert k (fst ` set sb)"
proof (induction sb)
  case Nil
  then show ?case by simp
next
  case (Cons a sb)
  obtain x y where a: "a = (x, y)" by (cases a)
  show ?case unfolding a using Cons by (cases "k < x"; cases "k = x") auto
qed

lemma set_sd_insert: "set (sd_insert k v sb) \<subseteq> insert (k, v) (set sb)"
proof (induction sb)
  case Nil
  then show ?case by simp
next
  case (Cons a sb)
  obtain x y where a: "a = (x, y)" by (cases a)
  show ?case unfolding a using Cons by (cases "k < x"; cases "k = x") auto
qed

lemma sorted_sd_insert:
  "sorted_wrt (<) (map fst sb) \<Longrightarrow> sorted_wrt (<) (map fst (sd_insert k v sb))"
proof (induction sb)
  case Nil
  then show ?case by simp
next
  case (Cons a sb)
  obtain x y where a: "a = (x, y)" by (cases a)
  have "\<forall>z \<in> fst ` set (sd_insert k v sb). x < z" if "x < k"
    using Cons.prems that unfolding keys_sd_insert a by auto
  then show ?case using Cons unfolding a by (auto simp: less_trans)
qed

lemma sd_ok_insert:
  assumes "sd_ok sb" "v \<noteq> []" "\<forall>e \<in> set v. 0 < e_quantity e"
  shows "sd_ok (sd_insert k v sb)"
  using assms set_sd_insert [of k v sb] sorted_sd_insert [of sb k v]
  unfolding sd_ok_def by fastforce

text \<open>The side an order rests on after lines 222-225, for the resting entry \<open>e\<close>.\<close>

lemma rest_sd_ok:
  assumes "sd_ok sb" "0 < e_quantity e"
  shows "sd_ok (sd_store k ((case map_of (case map_of sb k of None \<Rightarrow> sd_insert k [] sb | Some _ \<Rightarrow> sb) k of
                               None \<Rightarrow> [] | Some q \<Rightarrow> q) @ [e])
                  (case map_of sb k of None \<Rightarrow> sd_insert k [] sb | Some _ \<Rightarrow> sb))"
proof (cases "map_of sb k")
  case None
  have "map_of (sd_insert k [] sb) k = Some []" by (induction sb) auto
  then show ?thesis using None assms by (simp add: sd_store_insert sd_ok_insert)
next
  case (Some q)
  then show ?thesis using assms sd_ok_queue [OF assms(1) Some] by (simp add: sd_ok_store)
qed

lemma rest_keys:
  "fst ` set (sd_store k v (case map_of sb k of None \<Rightarrow> sd_insert k [] sb | Some _ \<Rightarrow> sb))
   \<subseteq> insert k (fst ` set sb)"
  by (auto simp: keys_sd_store keys_sd_insert split: option.splits)


lemma handle_remaining_book:
  "m_book (handle_remaining side ty price order_id s) =
     (if 0 < m_remaining s \<and> ty = ''limit'' then
        (case (case price of Some p \<Rightarrow> Some p | None \<Rightarrow> m_match_price s) of
           None \<Rightarrow> m_book s
         | Some rp \<Rightarrow>
            (if side = ''buy''
             then (m_book s)\<lparr>bids := sd_store rp
                    ((case map_of (case map_of (bids (m_book s)) rp of
                                     None \<Rightarrow> sd_insert rp [] (bids (m_book s))
                                   | Some _ \<Rightarrow> bids (m_book s)) rp of
                        None \<Rightarrow> [] | Some q \<Rightarrow> q)
                     @ [\<lparr>e_order_id = order_id, e_quantity = m_remaining s\<rparr>])
                    (case map_of (bids (m_book s)) rp of
                       None \<Rightarrow> sd_insert rp [] (bids (m_book s)) | Some _ \<Rightarrow> bids (m_book s))\<rparr>
             else (m_book s)\<lparr>asks := sd_store rp
                    ((case map_of (case map_of (asks (m_book s)) rp of
                                     None \<Rightarrow> sd_insert rp [] (asks (m_book s))
                                   | Some _ \<Rightarrow> asks (m_book s)) rp of
                        None \<Rightarrow> [] | Some q \<Rightarrow> q)
                     @ [\<lparr>e_order_id = order_id, e_quantity = m_remaining s\<rparr>])
                    (case map_of (asks (m_book s)) rp of
                       None \<Rightarrow> sd_insert rp [] (asks (m_book s)) | Some _ \<Rightarrow> asks (m_book s))\<rparr>))
      else m_book s)"
  unfolding handle_remaining_def Let_def
  by (cases "case price of Some p \<Rightarrow> Some p | None \<Rightarrow> m_match_price s") simp_all


lemma handle_remaining_opposite:
  "opposite side (m_book (handle_remaining side ty price order_id s)) = opposite side (m_book s)"
  unfolding handle_remaining_book
  by (cases "case price of Some p \<Rightarrow> Some p | None \<Rightarrow> m_match_price s")
     (simp_all add: opposite_def)

lemma handle_remaining_own:
  "own side (m_book (handle_remaining side ty price order_id s)) =
     (if 0 < m_remaining s \<and> ty = ''limit'' then
        (case (case price of Some p \<Rightarrow> Some p | None \<Rightarrow> m_match_price s) of
           None \<Rightarrow> own side (m_book s)
         | Some rp \<Rightarrow> sd_store rp
                    ((case map_of (case map_of (own side (m_book s)) rp of
                                     None \<Rightarrow> sd_insert rp [] (own side (m_book s))
                                   | Some _ \<Rightarrow> own side (m_book s)) rp of
                        None \<Rightarrow> [] | Some q \<Rightarrow> q)
                     @ [\<lparr>e_order_id = order_id, e_quantity = m_remaining s\<rparr>])
                    (case map_of (own side (m_book s)) rp of
                       None \<Rightarrow> sd_insert rp [] (own side (m_book s)) | Some _ \<Rightarrow> own side (m_book s)))
      else own side (m_book s))"
  unfolding handle_remaining_book
  by (cases "side = ''buy''"; cases "case price of Some p \<Rightarrow> Some p | None \<Rightarrow> m_match_price s")
     (simp_all add: own_def cong: option.case_cong)

lemma handle_remaining_own_ok:
  assumes "sd_ok (own side (m_book s))"
  shows "sd_ok (own side (m_book (handle_remaining side ty price order_id s)))"
  unfolding handle_remaining_own
  using assms rest_sd_ok [OF assms, of "\<lparr>e_order_id = order_id, e_quantity = m_remaining s\<rparr>"]
  by (cases "case price of Some p \<Rightarrow> Some p | None \<Rightarrow> m_match_price s") simp_all

lemma handle_remaining_own_keys:
  "fst ` set (own side (m_book (handle_remaining side ty (Some p) order_id s)))
   \<subseteq> (if 0 < m_remaining s \<and> ty = ''limit'' then insert p (fst ` set (own side (m_book s)))
       else fst ` set (own side (m_book s)))"
  unfolding handle_remaining_own
  using rest_keys [of p _ "own side (m_book s)"] by simp

lemma handle_remaining_book_ok:
  assumes "book_ok (m_book s)"
  shows "book_ok (m_book (handle_remaining side ty price order_id s))"
  using assms handle_remaining_own_ok [of side s ty price order_id]
  unfolding book_ok_sides [of _ side] handle_remaining_opposite by simp

text \<open>
  After the loop, a limit order with a remainder rests at its limit without crossing: the
  loop has left because the opposite side is empty or its best price is not marketable.
\<close>

lemma handle_remaining_uncrossed:
  assumes ok: "book_ok (m_book s)" and u: "uncrossed (m_book s)"
    and ex: "0 < m_remaining s \<and> ty = ''limit'' \<longrightarrow>
             (\<forall>y \<in> fst ` set (opposite side (m_book s)). \<not> marketable side (Some p) y)"
  shows "uncrossed (m_book (handle_remaining side ty (Some p) order_id s))"
proof -
  let ?s' = "handle_remaining side ty (Some p) order_id s"
  have ok': "book_ok (m_book ?s')" using handle_remaining_book_ok [OF ok] .
  have old: "\<forall>x \<in> fst ` set (own side (m_book s)). \<forall>y \<in> fst ` set (opposite side (m_book s)).
        if side = ''buy'' then x < y else y < x"
    using u unfolding uncrossed_sides [OF ok, of side] .
  have "if side = ''buy'' then x < y else y < x"
    if x: "x \<in> fst ` set (own side (m_book ?s'))" and y: "y \<in> fst ` set (opposite side (m_book s))"
    for x y
  proof (cases "x \<in> fst ` set (own side (m_book s))")
    case True
    then show ?thesis using old y by blast
  next
    case False
    then have "x = p" "0 < m_remaining s \<and> ty = ''limit''"
      using x handle_remaining_own_keys [of side ty p order_id s] by (auto split: if_splits)
    then have "\<not> marketable side (Some p) y" using ex y by blast
    then show ?thesis using \<open>x = p\<close> by (auto simp: marketable_def split: if_splits)
  qed
  then show ?thesis
    unfolding uncrossed_sides [OF ok', of side] handle_remaining_opposite by blast
qed

subsection \<open>Submissions and cancellations keep the books well formed and uncrossed\<close>

lemma books_ok_book_of:
  "books_ok st \<Longrightarrow> book_ok (book_of st k) \<and> uncrossed (book_of st k)"
  by (auto simp: books_ok_def book_of_def book_ok_def sd_ok_def uncrossed_def get_best_price_def
      split: option.splits)

lemma books_ok_update:
  assumes "books_ok st" "book_ok b" "uncrossed b" "order_books st' = (order_books st)(k \<mapsto> b)"
  shows "books_ok st'"
  using assms by (simp add: books_ok_def)

lemma submit_order_valid:
  assumes "submit_order st order usr order_id = Inr x"
  shows "0 < in_quantity order"
    and "lower (in_order_type order) = ''limit'' \<Longrightarrow> \<exists>p. taker_price order = Some p"
  using assms unfolding submit_order_unfold
  by (auto simp: taker_price_def split: if_splits)

lemma submit_order_books_ok:
  assumes inv: "books_ok st" and sub: "submit_order st order usr order_id = Inr (r, st')"
  shows "books_ok st'"
  using sub
proof (cases rule: submit_order_cases)
  case rejected
  have "order_books st' = (order_books st)(upper (in_symbol order) \<mapsto> book_of st (upper (in_symbol order)))"
    unfolding rejected(4) by simp
  then show ?thesis
    using books_ok_update [OF inv] books_ok_book_of [OF inv] by blast
next
  case (matched s1)
  let ?symbol = "upper (in_symbol order)" and ?side = "lower (in_side order)"
  let ?ty = "lower (in_order_type order)" and ?price = "taker_price order"
  let ?s0 = "start_state st order usr order_id"
  let ?s2 = "handle_remaining ?side ?ty ?price order_id s1"
  have b0: "book_ok (m_book ?s0)" "uncrossed (m_book ?s0)"
    using books_ok_book_of [OF inv] by (simp_all add: start_state_simps)
  from match_loop_book_inv [OF matched(1) b0]
  have b1: "book_ok (m_book s1)" "uncrossed (m_book s1)" by simp_all
  have ok0: "sd_ok (opposite ?side (m_book ?s0))"
    using b0(1) by (simp add: book_ok_sides [of _ ?side])
  have ok1: "sd_ok (opposite ?side (m_book s1))"
    using b1(1) by (simp add: book_ok_sides [of _ ?side])
  have b2: "book_ok (m_book ?s2) \<and> uncrossed (m_book ?s2)"
  proof (cases "?ty = ''limit''")
    case False
    then show ?thesis using b1 by (simp add: handle_remaining_book)
  next
    case True
    then obtain p where p: "?price = Some p" using submit_order_valid(2) [OF sub] by blast
    from match_loop_exit [OF ok0, of ?symbol ?ty ?price order_id] matched(1) True
    have ex: "m_remaining s1 \<le> 0 \<or> levels ?side (m_book s1) = []
        \<or> \<not> marketable ?side ?price (fst (hd (levels ?side (m_book s1))))"
      by auto
    have "\<forall>y \<in> fst ` set (opposite ?side (m_book s1)). \<not> marketable ?side ?price y"
      if "0 < m_remaining s1"
      using blocked_all [OF ok1, of ?price] ex that by auto
    then have "uncrossed (m_book ?s2)"
      using handle_remaining_uncrossed [OF b1, of ?ty ?side p order_id] unfolding p by blast
    then show ?thesis using handle_remaining_book_ok [OF b1(1)] by blast
  qed
  have "order_books st' = (order_books st)(?symbol \<mapsto> m_book ?s2)"
    unfolding matched(4) by simp
  then show ?thesis using books_ok_update [OF inv] b2 by blast
qed

lemma set_remove_order: "set (remove_order i q) \<subseteq> set q"
  by (induction q) auto

lemma remove_resting_ok:
  assumes "sd_ok sb"
  shows "sd_ok (remove_resting i price sb)"
proof (cases price)
  case None
  then show ?thesis using assms by (simp add: remove_resting_def)
next
  case (Some p)
  show ?thesis
  proof (cases "map_of sb p")
    case None
    then show ?thesis using assms Some by (simp add: remove_resting_def)
  next
    case (Some q)
    have pos: "\<forall>e \<in> set (remove_order i q). 0 < e_quantity e"
      using sd_ok_queue [OF assms Some] set_remove_order [of i q] by blast
    show ?thesis
      using \<open>price = Some p\<close> Some pos assms
      by (auto simp: remove_resting_def Let_def sd_del_store intro: sd_ok_del sd_ok_store)
  qed
qed

lemma remove_resting_keys: "fst ` set (remove_resting i price sb) \<subseteq> fst ` set sb"
  using keys_sd_del [of _ sb]
  by (auto simp: remove_resting_def Let_def sd_del_store keys_sd_store split: option.splits)

lemma get_order_book_eq:
  "get_order_book (order_books st) x
   = (book_of st (upper x), (order_books st)(upper x \<mapsto> book_of st (upper x)))"
  by (auto simp: get_order_book_def book_of_def Let_def split: option.splits)

lemma cancel_order_unfold:
  "cancel_order st cancel usr =
     (case find_one (orders_collection st) (c_order_id cancel) of
        None \<Rightarrow> Inl (HTTPException 404 ''Order not found'')
      | Some d \<Rightarrow>
          if d_status d \<in> set [''filled'', ''cancelled'']
          then Inl (HTTPException 400 ''Order already finalized'')
          else Inr ([(''order_id'', JStr (c_order_id cancel)), (''status'', JStr ''cancelled'')],
                 st\<lparr>order_books := (order_books st)(upper (d_symbol d) \<mapsto>
                        (if d_side d = ''buy''
                         then (book_of st (upper (d_symbol d)))
                                \<lparr>bids := remove_resting (c_order_id cancel) (d_price d)
                                           (bids (book_of st (upper (d_symbol d))))\<rparr>
                         else (book_of st (upper (d_symbol d)))
                                \<lparr>asks := remove_resting (c_order_id cancel) (d_price d)
                                           (asks (book_of st (upper (d_symbol d))))\<rparr>)),
                    orders_collection := update_one (orders_collection st) (c_order_id cancel)
                               (\<lambda>d. d\<lparr>d_status := ''cancelled''\<rparr>)\<rparr>))"
  unfolding cancel_order_def Let_def get_order_book_eq prod.case fun_upd_upd
  by (simp split: option.splits)

lemma remove_resting_bids_inv:
  assumes "book_ok b" "uncrossed b"
  shows "book_ok (b\<lparr>bids := remove_resting i pr (bids b)\<rparr>)
       \<and> uncrossed (b\<lparr>bids := remove_resting i pr (bids b)\<rparr>)"
proof -
  let ?b' = "b\<lparr>bids := remove_resting i pr (bids b)\<rparr>"
  have ok': "book_ok ?b'"
    using assms(1) remove_resting_ok [of "bids b" i pr] by (simp add: book_ok_def)
  have u: "\<forall>bp \<in> fst ` set (bids b). \<forall>ap \<in> fst ` set (asks b). bp < ap"
    using assms(2) unfolding uncrossed_iff [OF assms(1)] .
  have "bp < ap" if "bp \<in> fst ` set (bids ?b')" "ap \<in> fst ` set (asks ?b')" for bp ap
  proof -
    have "bp \<in> fst ` set (bids b)"
      using that(1) remove_resting_keys [of i pr "bids b"] by (simp add: subsetD)
    moreover have "ap \<in> fst ` set (asks b)" using that(2) by simp
    ultimately show ?thesis using u by blast
  qed
  then have "uncrossed ?b'" unfolding uncrossed_iff [OF ok'] by blast
  then show ?thesis using ok' by blast
qed

lemma remove_resting_asks_inv:
  assumes "book_ok b" "uncrossed b"
  shows "book_ok (b\<lparr>asks := remove_resting i pr (asks b)\<rparr>)
       \<and> uncrossed (b\<lparr>asks := remove_resting i pr (asks b)\<rparr>)"
proof -
  let ?b' = "b\<lparr>asks := remove_resting i pr (asks b)\<rparr>"
  have ok': "book_ok ?b'"
    using assms(1) remove_resting_ok [of "asks b" i pr] by (simp add: book_ok_def)
  have u: "\<forall>bp \<in> fst ` set (bids b). \<forall>ap \<in> fst ` set (asks b). bp < ap"
    using assms(2) unfolding uncrossed_iff [OF assms(1)] .
  have "bp < ap" if "bp \<in> fst ` set (bids ?b')" "ap \<in> fst ` set (asks ?b')" for bp ap
  proof -
    have "ap \<in> fst ` set (asks b)"
      using that(2) remove_resting_keys [of i pr "asks b"] by (simp add: subsetD)
    moreover have "bp \<in> fst ` set (bids b)" using that(1) by simp
    ultimately show ?thesis using u by blast
  qed
  then have "uncrossed ?b'" unfolding uncrossed_iff [OF ok'] by blast
  then show ?thesis using ok' by blast
qed

lemma cancel_order_books_ok:
  assumes inv: "books_ok st" and can: "cancel_order st cancel usr = Inr (r, st')"
  shows "books_ok st'"
proof -
  from can obtain d where d: "find_one (orders_collection st) (c_order_id cancel) = Some d"
    unfolding cancel_order_unfold by (auto split: option.splits)
  let ?b = "book_of st (upper (d_symbol d))"
  let ?i = "c_order_id cancel"
  let ?b' = "if d_side d = ''buy''
             then ?b\<lparr>bids := remove_resting ?i (d_price d) (bids ?b)\<rparr>
             else ?b\<lparr>asks := remove_resting ?i (d_price d) (asks ?b)\<rparr>"
  have st': "st' = st\<lparr>order_books := (order_books st)(upper (d_symbol d) \<mapsto> ?b'),
                    orders_collection := update_one (orders_collection st) ?i
                               (\<lambda>d. d\<lparr>d_status := ''cancelled''\<rparr>)\<rparr>"
    using can d unfolding cancel_order_unfold by (auto split: if_splits)
  have b: "book_ok ?b" "uncrossed ?b" using books_ok_book_of [OF inv] by simp_all
  have ok': "book_ok ?b'" and "uncrossed ?b'"
    using remove_resting_bids_inv [OF b, of ?i "d_price d"]
      remove_resting_asks_inv [OF b, of ?i "d_price d"]
    by (cases "d_side d = ''buy''"; simp)+
  note this(2)
  moreover have "order_books st' = (order_books st)(upper (d_symbol d) \<mapsto> ?b')"
    unfolding st' by simp
  ultimately show ?thesis using books_ok_update [OF inv ok'] by blast
qed

lemma reachable_books_ok: "reachable st \<Longrightarrow> books_ok st"
proof (induction rule: reachable.induct)
  case init
  show ?case by (simp add: books_ok_def init_engine_def)
next
  case (submit st order usr order_id r st')
  then show ?case using submit_order_books_ok by blast
next
  case (cancel st cancel usr r st')
  then show ?case using cancel_order_books_ok by blast
qed

text \<open>
  From a reachable state a request either succeeds or raises one of the
  \<^verbatim>\<open>HTTPException\<close>s, which are raised before anything is written: the relation
  \<open>reachable\<close> misses no state.
\<close>

lemma reachable_submit_total:
  assumes "reachable st" and "submit_order st order usr order_id = Inl e"
  shows "\<exists>c m. e = HTTPException c m"
proof -
  let ?side = "lower (in_side order)"
  have "sd_ok (opposite ?side (m_book (start_state st order usr order_id)))"
    using books_ok_book_of [OF reachable_books_ok [OF assms(1)]]
    by (simp add: start_state_simps book_ok_sides [of _ ?side])
  from match_loop_exit [OF this, of "upper (in_symbol order)" "lower (in_order_type order)"
      "taker_price order" order_id]
  obtain s1 where "match_loop (upper (in_symbol order)) ?side (lower (in_order_type order))
      (taker_price order) order_id (start_state st order usr order_id) = Inr s1"
    by blast
  then show ?thesis using assms(2) unfolding submit_order_unfold
    by (auto split: if_splits)
qed

lemma cancel_order_total:
  assumes "cancel_order st cancel usr = Inl e"
  shows "\<exists>c m. e = HTTPException c m"
  using assms unfolding cancel_order_unfold by (auto split: option.splits if_splits)

subsection \<open>Where the documents locate the resting orders\<close>

lemma loc_of_None: "loc_of db i = None \<longleftrightarrow> find_one db i = None"
  by (simp add: loc_of_def)

lemma loc_of_update_one:
  assumes "\<And>d. d_order_id (f d) = d_order_id d" "\<And>d. d_symbol (f d) = d_symbol d"
    "\<And>d. d_side (f d) = d_side d" "\<And>d. d_price (f d) = d_price d"
  shows "loc_of (update_one db j f) = loc_of db"
proof
  fix i
  show "loc_of (update_one db j f) i = loc_of db i"
    unfolding loc_of_def find_one_update_one [of f, OF assms(1)]
    by (cases "find_one db i") (auto simp: assms)
qed

lemma loc_of_insert_one:
  "loc_of (insert_one db d) i =
     (case loc_of db i of
        Some x \<Rightarrow> Some x
      | None \<Rightarrow> if d_order_id d = i then Some (upper (d_symbol d), d_side d = ''buy'', d_price d)
                else None)"
  unfolding loc_of_def find_one_insert_one by (cases "find_one db i") simp_all

lemma fill_loc_of:
  "loc_of (m_orders (fill symbol side order_id p maker rest s)) = loc_of (m_orders s)"
  unfolding fill_orders by (simp add: loc_of_update_one)

lemma match_loop_loc_of:
  assumes run: "match_loop symbol side ty price order_id s = Inr s'"
  shows "loc_of (m_orders s') = loc_of (m_orders s)"
  by (rule match_loop_rule [OF run, where P = "\<lambda>s1. loc_of (m_orders s1) = loc_of (m_orders s)"])
     (simp_all add: fill_loc_of)

lemma handle_remaining_orders:
  "m_orders (handle_remaining side ty price order_id s) =
     update_one (m_orders s) order_id
       (if 0 < m_remaining s then
          (if ty = ''limit'' \<and> (case price of Some p \<Rightarrow> Some p | None \<Rightarrow> m_match_price s) \<noteq> None
           then (\<lambda>d. d\<lparr>d_quantity := m_remaining s, d_status := ''open''\<rparr>)
           else (\<lambda>d. d\<lparr>d_status := ''cancelled''\<rparr>))
        else (\<lambda>d. d\<lparr>d_status := ''filled''\<rparr>))"
  unfolding handle_remaining_def Let_def
  by (cases "case price of Some p \<Rightarrow> Some p | None \<Rightarrow> m_match_price s") simp_all

lemma handle_remaining_loc_of:
  "loc_of (m_orders (handle_remaining side ty price order_id s)) = loc_of (m_orders s)"
  unfolding handle_remaining_orders by (simp add: loc_of_update_one)

lemma side_located_queue:
  assumes "side_located locf k isbid sb" "map_of sb p = Some q"
  shows "distinct (map e_order_id q)" "\<forall>e \<in> set q. locf (e_order_id e) = Some (k, isbid, Some p)"
  using assms map_of_SomeD [OF assms(2)] unfolding side_located_def by fastforce+

lemma side_located_store:
  assumes "side_located locf k isbid sb" "distinct (map e_order_id v)"
    "\<forall>e \<in> set v. locf (e_order_id e) = Some (k, isbid, Some p)"
  shows "side_located locf k isbid (sd_store p v sb)"
  using assms set_sd_store [of p v sb] unfolding side_located_def by fastforce

lemma side_located_insert:
  assumes "side_located locf k isbid sb" "distinct (map e_order_id v)"
    "\<forall>e \<in> set v. locf (e_order_id e) = Some (k, isbid, Some p)"
  shows "side_located locf k isbid (sd_insert p v sb)"
  using assms set_sd_insert [of p v sb] unfolding side_located_def by fastforce

lemma side_located_del:
  assumes "side_located locf k isbid sb"
  shows "side_located locf k isbid (sd_del p sb)"
  using assms set_sd_del [of p sb] unfolding side_located_def by fastforce

lemma located_sides:
  "located locf k b \<longleftrightarrow>
     side_located locf k (side = ''buy'') (own side b)
   \<and> side_located locf k (side \<noteq> ''buy'') (opposite side b)"
  by (auto simp: located_def own_def opposite_def)

lemma side_located_mono:
  assumes "side_located locf k isbid sb" "\<forall>i x. locf i = Some x \<longrightarrow> locf' i = Some x"
  shows "side_located locf' k isbid sb"
  using assms unfolding side_located_def by fastforce

lemma located_mono:
  assumes "located locf k b" "\<forall>i x. locf i = Some x \<longrightarrow> locf' i = Some x"
  shows "located locf' k b"
  using assms side_located_mono unfolding located_def by blast

lemma fill_located:
  assumes loc: "located locf k (m_book s)"
    and q: "map_of (opposite side (m_book s)) p = Some (maker # rest)"
  shows "located locf k (m_book (fill symbol side order_id p maker rest s))"
proof -
  have opp: "side_located locf k (side \<noteq> ''buy'') (opposite side (m_book s))"
    using loc unfolding located_sides [of _ _ _ side] by simp
  from side_located_queue [OF opp q]
  have d: "distinct (map e_order_id (maker # rest))"
    and l: "\<forall>e \<in> set (maker # rest). locf (e_order_id e) = Some (k, side \<noteq> ''buy'', Some p)"
    by simp_all
  have "side_located locf k (side \<noteq> ''buy'')
          (opposite side (m_book (fill symbol side order_id p maker rest s)))"
    unfolding fill_opposite using opp d l
    by (auto simp: sd_del_store intro!: side_located_del side_located_store)
  then show ?thesis using loc unfolding located_sides [of _ _ _ side] fill_own by simp
qed

lemma match_loop_located:
  assumes run: "match_loop symbol side ty price order_id s = Inr s'"
    and "located locf k (m_book s)"
  shows "located locf k (m_book s')"
  by (rule match_loop_rule [OF run, where P = "\<lambda>s. located locf k (m_book s)"])
     (use assms(2) fill_located in blast)+


lemma rest_located:
  assumes loc: "side_located locf k isbid sb" and fresh: "locf i = None"
    and ext: "\<forall>j x. locf j = Some x \<longrightarrow> locf' j = Some x"
    and new: "locf' i = Some (k, isbid, Some p)"
  shows "side_located locf' k isbid
           (sd_store p ((case map_of (case map_of sb p of None \<Rightarrow> sd_insert p [] sb | Some _ \<Rightarrow> sb) p of
                               None \<Rightarrow> [] | Some q \<Rightarrow> q) @ [\<lparr>e_order_id = i, e_quantity = x\<rparr>])
                  (case map_of sb p of None \<Rightarrow> sd_insert p [] sb | Some _ \<Rightarrow> sb))"
proof -
  have loc': "side_located locf' k isbid sb" using side_located_mono [OF loc ext] .
  show ?thesis
  proof (cases "map_of sb p")
    case None
    have "map_of (sd_insert p [] sb) p = Some []" by (induction sb) auto
    then show ?thesis using None loc' new
      by (simp add: sd_store_insert side_located_insert)
  next
    case (Some q)
    from side_located_queue [OF loc Some]
    have d: "distinct (map e_order_id q)" and l: "\<forall>e \<in> set q. locf (e_order_id e) = Some (k, isbid, Some p)"
      by simp_all
    have "i \<notin> e_order_id ` set q" using l fresh by force
    then have "distinct (map e_order_id (q @ [\<lparr>e_order_id = i, e_quantity = x\<rparr>]))"
      using d by simp
    moreover have "\<forall>e \<in> set (q @ [\<lparr>e_order_id = i, e_quantity = x\<rparr>]).
                     locf' (e_order_id e) = Some (k, isbid, Some p)"
      using l ext new by auto
    ultimately show ?thesis using Some loc' by (simp add: side_located_store)
  qed
qed

lemma handle_remaining_located:
  assumes loc: "located locf k (m_book s)" and fresh: "locf order_id = None"
    and ext: "\<forall>j x. locf j = Some x \<longrightarrow> locf' j = Some x"
    and new: "locf' order_id = Some (k, side = ''buy'', Some p)"
  shows "located locf' k (m_book (handle_remaining side ty (Some p) order_id s))"
proof -
  have own: "side_located locf k (side = ''buy'') (own side (m_book s))"
    and opp: "side_located locf k (side \<noteq> ''buy'') (opposite side (m_book s))"
    using loc unfolding located_sides [of _ _ _ side] by simp_all
  have "side_located locf' k (side = ''buy'')
          (own side (m_book (handle_remaining side ty (Some p) order_id s)))"
    unfolding handle_remaining_own
    using rest_located [OF own fresh ext new] side_located_mono [OF own ext] by simp
  then show ?thesis
    unfolding located_sides [of _ _ _ side] handle_remaining_opposite
    using side_located_mono [OF opp ext] by simp
qed

lemma books_located_book_of:
  "books_located st \<Longrightarrow> located (loc_of (orders_collection st)) k (book_of st k)"
  by (auto simp: books_located_def book_of_def located_def side_located_def split: option.splits)

lemma books_located_update:
  assumes "books_located st" "located (loc_of (orders_collection st')) k b"
    "order_books st' = (order_books st)(k \<mapsto> b)"
    "\<forall>j x. loc_of (orders_collection st) j = Some x \<longrightarrow> loc_of (orders_collection st') j = Some x"
  shows "books_located st'"
  using assms located_mono [of "loc_of (orders_collection st)" _ _ "loc_of (orders_collection st')"]
  unfolding books_located_def by (metis fun_upd_apply option.inject)

lemma submit_order_located:
  assumes inv: "books_located st" and fresh: "find_one (orders_collection st) order_id = None"
    and sub: "submit_order st order usr order_id = Inr (r, st')"
  shows "books_located st'"
proof -
  let ?symbol = "upper (in_symbol order)" and ?side = "lower (in_side order)"
  let ?ty = "lower (in_order_type order)" and ?price = "taker_price order"
  let ?db = "orders_collection st"
  let ?L0 = "loc_of ?db"
  let ?LOC = "loc_of (insert_one ?db (new_doc order usr order_id))"
  have ext: "\<forall>j x. ?L0 j = Some x \<longrightarrow> ?LOC j = Some x"
    by (simp add: loc_of_insert_one)
  have L0: "?L0 order_id = None" using fresh by (simp add: loc_of_None)
  have new: "?LOC order_id = Some (?symbol, ?side = ''buy'', ?price)"
    using L0 by (simp add: loc_of_insert_one new_doc_def upper_idem)
  have b0: "located ?L0 ?symbol (book_of st ?symbol)"
    using books_located_book_of [OF inv] .
  from sub show ?thesis
  proof (cases rule: submit_order_cases)
    case rejected
    have l: "loc_of (orders_collection st') = ?LOC"
      unfolding rejected(4) by (simp add: loc_of_update_one)
    have "located (loc_of (orders_collection st')) ?symbol (book_of st ?symbol)"
      unfolding l using located_mono [OF b0] ext by blast
    moreover have "order_books st' = (order_books st)(?symbol \<mapsto> book_of st ?symbol)"
      unfolding rejected(4) by simp
    ultimately show ?thesis using books_located_update [OF inv] ext l by metis
  next
    case (matched s1)
    let ?s0 = "start_state st order usr order_id"
    let ?s2 = "handle_remaining ?side ?ty ?price order_id s1"
    have l: "loc_of (orders_collection st') = ?LOC"
      unfolding matched(4)
      by (simp add: handle_remaining_loc_of match_loop_loc_of [OF matched(1)] start_state_simps)
    have b1: "located ?L0 ?symbol (m_book s1)"
      using match_loop_located [OF matched(1), of ?L0 ?symbol] b0 by (simp add: start_state_simps)
    have b2: "located ?LOC ?symbol (m_book ?s2)"
    proof (cases "?ty = ''limit''")
      case False
      then show ?thesis using located_mono [OF b1] ext by (simp add: handle_remaining_book)
    next
      case True
      then obtain p where p: "?price = Some p" using submit_order_valid(2) [OF sub] by blast
      show ?thesis unfolding p
        by (rule handle_remaining_located [OF b1 L0]) (use ext new p in auto)
    qed
    have "order_books st' = (order_books st)(?symbol \<mapsto> m_book ?s2)"
      unfolding matched(4) by simp
    then show ?thesis using books_located_update [OF inv] ext l b2 by metis
  qed
qed


lemma ids_remove_order: "e_order_id ` set (remove_order i q) \<subseteq> e_order_id ` set q"
  using set_remove_order [of i q] by blast

lemma distinct_remove_order:
  "distinct (map e_order_id q) \<Longrightarrow> distinct (map e_order_id (remove_order i q))"
proof (induction q)
  case Nil
  then show ?case by simp
next
  case (Cons a q)
  then show ?case using ids_remove_order [of i q] by auto
qed

lemma remove_order_gone:
  "distinct (map e_order_id q) \<Longrightarrow> i \<notin> e_order_id ` set (remove_order i q)"
  by (induction q) auto

lemma remove_resting_located:
  assumes "side_located locf k isbid sb"
  shows "side_located locf k isbid (remove_resting i price sb)"
proof (cases price)
  case None
  then show ?thesis using assms by (simp add: remove_resting_def)
next
  case (Some p)
  show ?thesis
  proof (cases "map_of sb p")
    case None
    then show ?thesis using assms Some by (simp add: remove_resting_def)
  next
    case (Some q)
    from side_located_queue [OF assms Some]
    have "distinct (map e_order_id (remove_order i q))"
      and "\<forall>e \<in> set (remove_order i q). locf (e_order_id e) = Some (k, isbid, Some p)"
      using distinct_remove_order set_remove_order [of i q] by blast+
    then show ?thesis
      using \<open>price = Some p\<close> Some assms
      by (auto simp: remove_resting_def Let_def sd_del_store
          intro: side_located_del side_located_store)
  qed
qed

text \<open>After \<open>remove_resting\<close> the order is in no deque of a located, well-formed side.\<close>

lemma remove_resting_gone:
  assumes loc: "side_located locf k isbid sb" and ok: "sd_ok sb"
    and li: "locf i = Some (k', isbid', price)"
  shows "i \<notin> e_order_id ` set (entries (remove_resting i price sb))"
proof
  assume "i \<in> e_order_id ` set (entries (remove_resting i price sb))"
  then obtain p' q' where in': "(p', q') \<in> set (remove_resting i price sb)" "i \<in> e_order_id ` set q'"
    by (auto simp: entries_def)
  have loc': "side_located locf k isbid (remove_resting i price sb)"
    using remove_resting_located [OF loc] .
  then have "locf i = Some (k, isbid, Some p')"
    using in' unfolding side_located_def by fastforce
  then have price: "price = Some p'" using li by simp
  have dk: "distinct (map fst sb)" using sd_ok_distinct [OF ok] .
  show False
  proof (cases "map_of sb p'")
    case None
    then have "remove_resting i price sb = sb" using price by (simp add: remove_resting_def)
    then have "(p', q') \<in> set sb" using in'(1) by simp
    then show False using None dk by (simp add: map_of_eq_None_iff rev_image_eqI)
  next
    case (Some q)
    let ?q1 = "remove_order i q"
    have d: "distinct (map e_order_id q)" using side_located_queue(1) [OF loc Some] .
    have gone: "i \<notin> e_order_id ` set ?q1" using remove_order_gone [OF d] .
    obtain xs ys where sb: "sb = xs @ (p', q) # ys" "p' \<notin> fst ` set xs"
      using map_of_SomeD_split [OF Some] by blast
    have nys: "p' \<notin> fst ` set ys" using dk unfolding sb(1) by auto
    have res: "remove_resting i price sb = (if ?q1 = [] then xs @ ys else xs @ (p', ?q1) # ys)"
      using price Some unfolding remove_resting_def sb(1)
      by (simp add: map_of_split [OF sb(2)] sd_store_split [OF sb(2)] sd_del_split [OF sb(2)] Let_def)
    have "q' = ?q1"
      using in'(1) sb(2) nys unfolding res by (auto split: if_splits simp: rev_image_eqI)
    then show False using gone in'(2) by simp
  qed
qed

lemma cancel_order_located:
  assumes inv: "books_located st" and can: "cancel_order st cancel usr = Inr (r, st')"
  shows "books_located st'"
proof -
  from can obtain d where d: "find_one (orders_collection st) (c_order_id cancel) = Some d"
    unfolding cancel_order_unfold by (auto split: option.splits)
  let ?k = "upper (d_symbol d)"
  let ?b = "book_of st ?k"
  let ?i = "c_order_id cancel"
  let ?b' = "if d_side d = ''buy''
             then ?b\<lparr>bids := remove_resting ?i (d_price d) (bids ?b)\<rparr>
             else ?b\<lparr>asks := remove_resting ?i (d_price d) (asks ?b)\<rparr>"
  have st': "st' = st\<lparr>order_books := (order_books st)(?k \<mapsto> ?b'),
                    orders_collection := update_one (orders_collection st) ?i
                               (\<lambda>d. d\<lparr>d_status := ''cancelled''\<rparr>)\<rparr>"
    using can d unfolding cancel_order_unfold by (auto split: if_splits)
  have l: "loc_of (orders_collection st') = loc_of (orders_collection st)"
    unfolding st' by (simp add: loc_of_update_one)
  have b: "located (loc_of (orders_collection st)) ?k ?b"
    using books_located_book_of [OF inv] .
  have "located (loc_of (orders_collection st)) ?k ?b'"
    using b remove_resting_located unfolding located_def by simp
  moreover have "order_books st' = (order_books st)(?k \<mapsto> ?b')"
    unfolding st' by simp
  ultimately show ?thesis using books_located_update [OF inv] l by metis
qed

lemma reachable_by_reachable: "reachable_by h st \<Longrightarrow> reachable st"
  by (induction rule: reachable_by.induct) (auto intro: reachable.intros)

lemma reachable_by_located: "reachable_by h st \<Longrightarrow> books_located st"
proof (induction rule: reachable_by.induct)
  case start
  show ?case by (simp add: books_located_def init_engine_def)
next
  case (submit h st order_id order usr r st')
  then show ?case using submit_order_located by blast
next
  case (cancel h st cancel usr r st')
  then show ?case using cancel_order_located by blast
qed

subsection \<open>What a cancellation removes\<close>

lemma side_located_entry:
  assumes "side_located locf k isbid sb" "e \<in> set (entries sb)"
  shows "\<exists>p. locf (e_order_id e) = Some (k, isbid, Some p)"
  using assms unfolding side_located_def entries_def by fastforce

lemma ids_remove_order_other:
  "j \<noteq> i \<Longrightarrow> j \<in> e_order_id ` set (remove_order i q) \<longleftrightarrow> j \<in> e_order_id ` set q"
  by (induction q) auto

lemma remove_resting_other:
  assumes ok: "sd_ok sb" and ji: "j \<noteq> i"
  shows "j \<in> e_order_id ` set (entries (remove_resting i price sb))
         \<longleftrightarrow> j \<in> e_order_id ` set (entries sb)"
proof (cases price)
  case None
  then show ?thesis by (simp add: remove_resting_def)
next
  case (Some p)
  show ?thesis
  proof (cases "map_of sb p")
    case None
    then show ?thesis using Some by (simp add: remove_resting_def)
  next
    case (Some q)
    let ?q1 = "remove_order i q"
    obtain xs ys where sb: "sb = xs @ (p, q) # ys" "p \<notin> fst ` set xs"
      using map_of_SomeD_split [OF Some] by blast
    have res: "remove_resting i price sb = (if ?q1 = [] then xs @ ys else xs @ (p, ?q1) # ys)"
      using \<open>price = Some p\<close> Some unfolding remove_resting_def sb(1)
      by (simp add: map_of_split [OF sb(2)] sd_store_split [OF sb(2)] sd_del_split [OF sb(2)] Let_def)
    have e1: "entries sb = entries xs @ q @ entries ys"
      unfolding sb(1) entries_def by simp
    have e2: "entries (remove_resting i price sb) = entries xs @ ?q1 @ entries ys"
      unfolding res entries_def by simp
    have "j \<in> e_order_id ` set ?q1 \<longleftrightarrow> j \<in> e_order_id ` set q"
      using ids_remove_order_other [OF ji] .
    then show ?thesis unfolding e1 e2 by (simp add: image_Un)
  qed
qed

lemma cancel_order_rests:
  assumes ok: "books_ok st" and loc: "books_located st"
    and d: "find_one (orders_collection st) i = Some d"
    and st': "st' = st\<lparr>order_books := (order_books st)(upper (d_symbol d) \<mapsto>
                        (if d_side d = ''buy''
                         then (book_of st (upper (d_symbol d)))
                                \<lparr>bids := remove_resting i (d_price d)
                                           (bids (book_of st (upper (d_symbol d))))\<rparr>
                         else (book_of st (upper (d_symbol d)))
                                \<lparr>asks := remove_resting i (d_price d)
                                           (asks (book_of st (upper (d_symbol d))))\<rparr>)),
                    orders_collection := ds\<rparr>"
  shows "\<not> rests st' i" and "j \<noteq> i \<Longrightarrow> rests st' j \<longleftrightarrow> rests st j"
proof -
  let ?k = "upper (d_symbol d)"
  let ?b = "book_of st ?k"
  let ?L = "loc_of (orders_collection st)"
  let ?b' = "if d_side d = ''buy''
             then ?b\<lparr>bids := remove_resting i (d_price d) (bids ?b)\<rparr>
             else ?b\<lparr>asks := remove_resting i (d_price d) (asks ?b)\<rparr>"
  have li: "?L i = Some (?k, d_side d = ''buy'', d_price d)"
    using d by (simp add: loc_of_def)
  have bk: "book_ok ?b" using books_ok_book_of [OF ok] by simp
  have lb: "side_located ?L ?k True (bids ?b)" "side_located ?L ?k False (asks ?b)"
    using books_located_book_of [OF loc, of ?k] by (simp_all add: located_def)
  have ob: "order_books st' = (order_books st)(?k \<mapsto> ?b')" unfolding st' by simp
  have nb: "i \<notin> e_order_id ` set (entries (bids ?b'))"
  proof (cases "d_side d = ''buy''")
    case True
    then show ?thesis using remove_resting_gone [OF lb(1) _ li] bk by (simp add: book_ok_def)
  next
    case False
    then show ?thesis using side_located_entry [OF lb(1)] li by force
  qed
  have na: "i \<notin> e_order_id ` set (entries (asks ?b'))"
  proof (cases "d_side d = ''buy''")
    case False
    then show ?thesis using remove_resting_gone [OF lb(2) _ li] bk by (simp add: book_ok_def)
  next
    case True
    then show ?thesis using side_located_entry [OF lb(2)] li by force
  qed
  show "\<not> rests st' i"
  proof
    assume "rests st' i"
    then obtain symbol b where sb: "order_books st' symbol = Some b"
      "i \<in> e_order_id ` set (entries (bids b) @ entries (asks b))"
      unfolding rests_def by blast
    show False
    proof (cases "symbol = ?k")
      case True
      then have "b = ?b'" using sb(1) ob by simp
      then show False using sb(2) nb na by auto
    next
      case False
      then have o: "order_books st symbol = Some b" using sb(1) ob by simp
      then have "located ?L symbol b" using loc by (simp add: books_located_def)
      then have "\<exists>isbid p. ?L i = Some (symbol, isbid, Some p)"
        using sb(2) side_located_entry unfolding located_def by (metis UnE image_iff set_append)
      then show False using li False by auto
    qed
  qed
  show "rests st' j \<longleftrightarrow> rests st j" if ji: "j \<noteq> i"
  proof -
    have same: "j \<in> e_order_id ` set (entries (bids ?b') @ entries (asks ?b'))
       \<longleftrightarrow> j \<in> e_order_id ` set (entries (bids ?b) @ entries (asks ?b))"
      using remove_resting_other [OF _ ji, of "bids ?b" "d_price d"]
        remove_resting_other [OF _ ji, of "asks ?b" "d_price d"] bk
      by (cases "d_side d = ''buy''") (auto simp: book_ok_def image_Un)
    have old: "j \<in> e_order_id ` set (entries (bids ?b) @ entries (asks ?b))
       \<longleftrightarrow> (\<exists>b. order_books st ?k = Some b \<and> j \<in> e_order_id ` set (entries (bids b) @ entries (asks b)))"
      by (cases "order_books st ?k") (simp_all add: book_of_def entries_def)
    show ?thesis
    proof
      assume "rests st' j"
      then obtain symbol b where sb: "order_books st' symbol = Some b"
        "j \<in> e_order_id ` set (entries (bids b) @ entries (asks b))"
        unfolding rests_def by blast
      show "rests st j"
      proof (cases "symbol = ?k")
        case True
        then have "b = ?b'" using sb(1) ob by simp
        then show ?thesis using sb(2) same old unfolding rests_def by blast
      next
        case False
        then show ?thesis using sb ob unfolding rests_def by auto
      qed
    next
      assume "rests st j"
      then obtain symbol b where sb: "order_books st symbol = Some b"
        "j \<in> e_order_id ` set (entries (bids b) @ entries (asks b))"
        unfolding rests_def by blast
      show "rests st' j"
      proof (cases "symbol = ?k")
        case True
        then have "j \<in> e_order_id ` set (entries (bids ?b') @ entries (asks ?b'))"
          using sb same old by blast
        then show ?thesis using ob unfolding rests_def by (metis fun_upd_same)
      next
        case False
        then have "order_books st' symbol = Some b" using sb(1) ob by simp
        then show ?thesis using sb(2) unfolding rests_def by blast
      qed
    qed
  qed
qed

subsection \<open>The ledger\<close>

lemma traded_Nil: "traded [] i = 0"
  by (simp add: traded_def made_def taken_def)

lemma traded_snoc:
  "traded (ts @ [t]) i
   = traded ts i + (if maker_order_id t = i then t_quantity t else 0)
                 + (if taker_order_id t = i then t_quantity t else 0)"
  by (simp add: traded_def made_def taken_def)

lemma traded_absent:
  "\<forall>t \<in> set ts. maker_order_id t \<noteq> i \<and> taker_order_id t \<noteq> i \<Longrightarrow> traded ts i = 0"
  by (induction ts) (auto simp: traded_def made_def taken_def)

lemma made_take_le:
  "\<forall>t \<in> set ts. 0 < t_quantity t \<Longrightarrow> 0 \<le> made (take n ts) i \<and> made (take n ts) i \<le> made ts i"
proof (induction ts arbitrary: n)
  case Nil
  then show ?case by (simp add: made_def)
next
  case (Cons t ts)
  have IH: "0 \<le> made (take m ts) i \<and> made (take m ts) i \<le> made ts i" for m
    using Cons by simp
  have t: "0 < t_quantity t" using Cons.prems by simp
  show ?case
  proof (cases n)
    case 0
    have "0 \<le> made ts i" using IH [of "length ts"] by simp
    then show ?thesis using 0 t by (simp add: made_def)
  next
    case (Suc m)
    then show ?thesis using IH [of m] t by (simp add: made_def)
  qed
qed

lemma taken_take_le:
  "\<forall>t \<in> set ts. 0 < t_quantity t \<Longrightarrow> 0 \<le> taken (take n ts) i \<and> taken (take n ts) i \<le> taken ts i"
proof (induction ts arbitrary: n)
  case Nil
  then show ?case by (simp add: taken_def)
next
  case (Cons t ts)
  have IH: "0 \<le> taken (take m ts) i \<and> taken (take m ts) i \<le> taken ts i" for m
    using Cons by simp
  have t: "0 < t_quantity t" using Cons.prems by simp
  show ?case
  proof (cases n)
    case 0
    have "0 \<le> taken ts i" using IH [of "length ts"] by simp
    then show ?thesis using 0 t by (simp add: taken_def)
  next
    case (Suc m)
    then show ?thesis using IH [of m] t by (simp add: taken_def)
  qed
qed

lemma orig_None: "orig h i = None \<longleftrightarrow> i \<notin> snd ` set h"
  unfolding orig_def map_of_eq_None_iff by force

lemma orig_snoc:
  "orig (h @ [(order, j)]) i
   = (case orig h i of Some q \<Rightarrow> Some q | None \<Rightarrow> if i = j then Some (in_quantity order) else None)"
  by (auto simp: orig_def map_add_def split: option.splits)

lemma orig_mem:
  assumes "distinct (map snd h)" "(order, i) \<in> set h"
  shows "orig h i = Some (in_quantity order)"
proof -
  have "distinct (map fst (map (\<lambda>(order, j). (j, in_quantity order)) h))"
    using assms(1) by (simp add: case_prod_beta comp_def)
  moreover have "(i, in_quantity order) \<in> set (map (\<lambda>(order, j). (j, in_quantity order)) h)"
    using assms(2) by force
  ultimately show ?thesis unfolding orig_def by (rule map_of_is_SomeI)
qed

text \<open>The identifiers of a located side with distinct prices are distinct.\<close>

lemma located_ids_distinct:
  assumes "distinct (map fst lv)" "side_located locf k isbid lv"
  shows "distinct (map e_order_id (entries lv))"
  using assms
proof (induction lv)
  case Nil
  then show ?case by (simp add: entries_def)
next
  case (Cons l lv)
  obtain p q where l: "l = (p, q)" by (cases l)
  have loc: "side_located locf k isbid lv" and dq: "distinct (map e_order_id q)"
    and lq: "\<forall>e \<in> set q. locf (e_order_id e) = Some (k, isbid, Some p)"
    using Cons.prems(2) unfolding side_located_def l by auto
  have IH: "distinct (map e_order_id (entries lv))" using Cons loc by simp
  have "e_order_id e \<noteq> e_order_id e'" if eq: "e \<in> set q" and elv: "e' \<in> set (entries lv)" for e e'
  proof -
    obtain p' q' where "(p', q') \<in> set lv" "e' \<in> set q'"
      using elv by (auto simp: entries_def)
    then have "locf (e_order_id e') = Some (k, isbid, Some p')" "p' \<noteq> p"
      using loc Cons.prems(1) unfolding side_located_def l by force+
    then show ?thesis using lq eq by auto
  qed
  then have "e_order_id ` set q \<inter> e_order_id ` set (entries lv) = {}" by blast
  then show ?case using dq IH unfolding l entries_def by simp
qed

lemma entries_levels: "set (entries (levels side b)) = set (entries (opposite side b))"
  by (auto simp: levels_opposite entries_def)

lemma book_entries_sides:
  "set (entries (bids b) @ entries (asks b))
   = set (entries (own side b)) \<union> set (entries (opposite side b))"
  by (auto simp: own_def opposite_def)


lemma fill_entries:
  assumes ok: "sd_ok (opposite side (m_book s))"
    and lv: "levels side (m_book s) = (p, maker # rest) # lv"
  shows "set (entries (opposite side (m_book s))) = insert maker (set rest \<union> set (entries lv))"
    and "set (entries (opposite side (m_book (fill symbol side order_id p maker rest s))))
         = (if e_quantity maker \<le> m_remaining s then set rest \<union> set (entries lv)
            else insert (maker\<lparr>e_quantity := e_quantity maker - m_remaining s\<rparr>)
                   (set rest \<union> set (entries lv)))"
proof -
  show "set (entries (opposite side (m_book s))) = insert maker (set rest \<union> set (entries lv))"
    unfolding entries_levels [symmetric] lv by (simp add: entries_def)
  show "set (entries (opposite side (m_book (fill symbol side order_id p maker rest s))))
         = (if e_quantity maker \<le> m_remaining s then set rest \<union> set (entries lv)
            else insert (maker\<lparr>e_quantity := e_quantity maker - m_remaining s\<rparr>)
                   (set rest \<union> set (entries lv)))"
    unfolding entries_levels [symmetric] fill_levels [OF ok lv] by (simp add: entries_def)
qed

lemma set_levels: "set (levels side b) = set (opposite side b)"
  by (cases "side = ''buy''") (simp_all add: levels_opposite)

lemma levels_ids_distinct:
  assumes ok: "sd_ok (opposite side b)" and loc: "located locf k b"
  shows "distinct (map e_order_id (entries (levels side b)))"
proof -
  have d: "distinct (map fst (levels side b))"
    using sd_ok_distinct [OF ok] by (cases "side = ''buy''") (simp_all add: levels_opposite rev_map [symmetric])
  have "side_located locf k (side \<noteq> ''buy'') (opposite side b)"
    using loc unfolding located_sides [of _ _ _ side] by simp
  then have "side_located locf k (side \<noteq> ''buy'') (levels side b)"
    unfolding side_located_def set_levels .
  from located_ids_distinct [OF d this] show ?thesis .
qed


lemma match_loop_ledger:
  fixes Qf :: "string \<Rightarrow> rat option"
  assumes run: "match_loop symbol side ty price c s0 = Inr s'"
    and ok0: "book_ok (m_book s0)" and loc0: "located locf k (m_book s0)"
    and QC: "Qf c = None" and r0: "0 \<le> m_remaining s0"
    and E0: "\<forall>e \<in> set (entries (opposite side (m_book s0))).
               \<exists>q. Qf (e_order_id e) = Some q
                 \<and> traded (m_trades s0) (e_order_id e) + e_quantity e \<le> q"
    and A0: "\<forall>i q. Qf i = Some q \<longrightarrow> traded (m_trades s0) i \<le> q"
    and T0: "\<forall>t \<in> set (m_trades s0). 0 < t_quantity t \<and> Qf (maker_order_id t) \<noteq> None
               \<and> (taker_order_id t = c \<or> Qf (taker_order_id t) \<noteq> None)"
  shows "0 \<le> m_remaining s'
     \<and> traded (m_trades s') c + m_remaining s' = traded (m_trades s0) c + m_remaining s0
     \<and> (\<forall>e \<in> set (entries (opposite side (m_book s'))).
               \<exists>q. Qf (e_order_id e) = Some q
                 \<and> traded (m_trades s') (e_order_id e) + e_quantity e \<le> q)
     \<and> (\<forall>i q. Qf i = Some q \<longrightarrow> traded (m_trades s') i \<le> q)
     \<and> (\<forall>t \<in> set (m_trades s'). 0 < t_quantity t \<and> Qf (maker_order_id t) \<noteq> None
               \<and> (taker_order_id t = c \<or> Qf (taker_order_id t) \<noteq> None))
     \<and> (\<forall>i. i \<noteq> c \<longrightarrow> i \<notin> e_order_id ` set (entries (opposite side (m_book s0)))
            \<longrightarrow> traded (m_trades s') i = traded (m_trades s0) i)"
proof -
  define P where "P = (\<lambda>s::match_state.
       located locf k (m_book s)
     \<and> 0 \<le> m_remaining s
     \<and> traded (m_trades s) c + m_remaining s = traded (m_trades s0) c + m_remaining s0
     \<and> (\<forall>e \<in> set (entries (opposite side (m_book s))).
               \<exists>q. Qf (e_order_id e) = Some q
                 \<and> traded (m_trades s) (e_order_id e) + e_quantity e \<le> q)
     \<and> (\<forall>i q. Qf i = Some q \<longrightarrow> traded (m_trades s) i \<le> q)
     \<and> (\<forall>t \<in> set (m_trades s). 0 < t_quantity t \<and> Qf (maker_order_id t) \<noteq> None
               \<and> (taker_order_id t = c \<or> Qf (taker_order_id t) \<noteq> None))
     \<and> (\<forall>i. i \<noteq> c \<longrightarrow> i \<notin> e_order_id ` set (entries (opposite side (m_book s0)))
            \<longrightarrow> traded (m_trades s) i = traded (m_trades s0) i)
     \<and> e_order_id ` set (entries (opposite side (m_book s)))
         \<subseteq> e_order_id ` set (entries (opposite side (m_book s0))))"
  have sd0: "sd_ok (opposite side (m_book s0))"
    using ok0 by (simp add: book_ok_sides [of _ side])
  have "P s' \<and> sd_ok (opposite side (m_book s'))"
  proof (rule match_loop_ok_rule [OF run sd0])
    show "P s0" unfolding P_def using loc0 r0 E0 A0 T0 by simp
  next
    fix s p maker rest lv
    assume Ps: "P s" and sd: "sd_ok (opposite side (m_book s))" and r: "0 < m_remaining s"
      and lv: "levels side (m_book s) = (p, maker # rest) # lv"
      and mq: "0 < e_quantity maker"
    let ?s2 = "fill symbol side c p maker rest s"
    let ?m = "e_order_id maker"
    let ?tq = "min (m_remaining s) (e_quantity maker)"
    let ?t = "\<lparr>t_symbol = symbol, t_price = p, t_quantity = ?tq,
       maker_order_id = ?m, taker_order_id = c, aggressor_side = side\<rparr>"
    let ?ids0 = "e_order_id ` set (entries (opposite side (m_book s0)))"
    from Ps have loc: "located locf k (m_book s)"
      and R: "traded (m_trades s) c + m_remaining s = traded (m_trades s0) c + m_remaining s0"
      and E: "\<forall>e \<in> set (entries (opposite side (m_book s))).
               \<exists>q. Qf (e_order_id e) = Some q
                 \<and> traded (m_trades s) (e_order_id e) + e_quantity e \<le> q"
      and A: "\<forall>i q. Qf i = Some q \<longrightarrow> traded (m_trades s) i \<le> q"
      and T: "\<forall>t \<in> set (m_trades s). 0 < t_quantity t \<and> Qf (maker_order_id t) \<noteq> None
               \<and> (taker_order_id t = c \<or> Qf (taker_order_id t) \<noteq> None)"
      and U: "\<forall>i. i \<noteq> c \<longrightarrow> i \<notin> ?ids0 \<longrightarrow> traded (m_trades s) i = traded (m_trades s0) i"
      and S: "e_order_id ` set (entries (opposite side (m_book s))) \<subseteq> ?ids0"
      unfolding P_def by blast+
    have mo: "map_of (opposite side (m_book s)) p = Some (maker # rest)"
      using levels_hd_map_of [OF sd lv] .
    have en: "set (entries (opposite side (m_book s))) = insert maker (set rest \<union> set (entries lv))"
      using fill_entries(1) [OF sd lv] .
    have en2: "set (entries (opposite side (m_book ?s2)))
         = (if e_quantity maker \<le> m_remaining s then set rest \<union> set (entries lv)
            else insert (maker\<lparr>e_quantity := e_quantity maker - m_remaining s\<rparr>)
                   (set rest \<union> set (entries lv)))"
      using fill_entries(2) [OF sd lv] .
    have "distinct (map e_order_id (entries (levels side (m_book s))))"
      using levels_ids_distinct [OF sd loc] .
    then have "?m \<notin> e_order_id ` (set rest \<union> set (entries lv))"
      unfolding lv by (simp add: entries_def image_Un)
    then have others: "\<forall>e \<in> set rest \<union> set (entries lv). e_order_id e \<noteq> ?m"
      by (metis imageI)
    obtain qm where qm: "Qf ?m = Some qm" "traded (m_trades s) ?m + e_quantity maker \<le> qm"
      using E en by auto
    have mc: "?m \<noteq> c" using qm(1) QC by auto
    have tq: "0 < ?tq" "?tq \<le> m_remaining s" "?tq \<le> e_quantity maker"
      using r mq by simp_all
    have tr: "m_trades ?s2 = m_trades s @ [?t]" by (simp add: fill_trades)
    have trd: "traded (m_trades ?s2) i
               = traded (m_trades s) i + (if ?m = i then ?tq else 0) + (if c = i then ?tq else 0)" for i
      unfolding tr traded_snoc by simp
    have 1: "located locf k (m_book ?s2)" using fill_located [OF loc mo] .
    have 2: "0 \<le> m_remaining ?s2" using tq by (simp add: fill_remaining)
    have 3: "traded (m_trades ?s2) c + m_remaining ?s2 = traded (m_trades s0) c + m_remaining s0"
      using R mc by (simp add: trd fill_remaining)
    have 4: "\<exists>q. Qf (e_order_id e) = Some q \<and> traded (m_trades ?s2) (e_order_id e) + e_quantity e \<le> q"
      if e: "e \<in> set (entries (opposite side (m_book ?s2)))" for e
    proof (cases "e \<in> set rest \<union> set (entries lv)")
      case True
      then have "e_order_id e \<noteq> ?m" using others by blast
      moreover obtain q where q: "Qf (e_order_id e) = Some q"
        "traded (m_trades s) (e_order_id e) + e_quantity e \<le> q"
        using E en True by blast
      moreover have "e_order_id e \<noteq> c" using q(1) QC by auto
      ultimately show ?thesis by (auto simp: trd)
    next
      case False
      then have e': "e = maker\<lparr>e_quantity := e_quantity maker - m_remaining s\<rparr>"
        and gt: "\<not> e_quantity maker \<le> m_remaining s"
        using e unfolding en2 by (auto split: if_splits)
      have "traded (m_trades ?s2) ?m + (e_quantity maker - m_remaining s) \<le> qm"
        using qm(2) gt mc by (simp add: trd min_def)
      then show ?thesis using qm(1) e' by simp
    qed
    have 5: "traded (m_trades ?s2) i \<le> q" if "Qf i = Some q" for i q
    proof (cases "i = ?m")
      case True
      then have "q = qm" using that qm(1) by simp
      then show ?thesis using qm(2) tq(3) True mc by (simp add: trd)
    next
      case False
      moreover have "i \<noteq> c" using that QC by auto
      ultimately show ?thesis using A that by (simp add: trd)
    qed
    have 6: "\<forall>t \<in> set (m_trades ?s2). 0 < t_quantity t \<and> Qf (maker_order_id t) \<noteq> None
               \<and> (taker_order_id t = c \<or> Qf (taker_order_id t) \<noteq> None)"
      unfolding tr using T tq(1) qm(1) by simp
    have min0: "?m \<in> ?ids0" using S en by auto
    have 7: "traded (m_trades ?s2) i = traded (m_trades s0) i" if "i \<noteq> c" "i \<notin> ?ids0" for i
      using U that min0 by (auto simp: trd)
    have 8: "e_order_id ` set (entries (opposite side (m_book ?s2))) \<subseteq> ?ids0"
      using S unfolding en en2 by (auto split: if_splits)
    show "P ?s2" unfolding P_def using 1 2 3 4 5 6 7 8 by blast
  qed
  then show ?thesis unfolding P_def by blast
qed


lemma set_entries_store: "set (entries (sd_store k v sb)) \<subseteq> set v \<union> set (entries sb)"
  using set_sd_store [of k v sb] by (fastforce simp: entries_def)

lemma set_entries_del: "set (entries (sd_del k sb)) \<subseteq> set (entries sb)"
  using set_sd_del [of k sb] by (fastforce simp: entries_def)

lemma set_entries_insert: "set (entries (sd_insert k v sb)) \<subseteq> set v \<union> set (entries sb)"
  using set_sd_insert [of k v sb] by (fastforce simp: entries_def)

lemma set_entries_queue: "map_of sb k = Some q \<Longrightarrow> set q \<subseteq> set (entries sb)"
  by (auto simp: entries_def dest!: map_of_SomeD)

lemma rest_entries:
  "set (entries (sd_store p ((case map_of (case map_of sb p of None \<Rightarrow> sd_insert p [] sb | Some _ \<Rightarrow> sb) p of
                               None \<Rightarrow> [] | Some q \<Rightarrow> q) @ [e])
                  (case map_of sb p of None \<Rightarrow> sd_insert p [] sb | Some _ \<Rightarrow> sb)))
   \<subseteq> insert e (set (entries sb))"
proof (cases "map_of sb p")
  case None
  have "map_of (sd_insert p [] sb) p = Some []" by (induction sb) auto
  then show ?thesis using None set_entries_insert [of p "[e]" sb]
    by (simp add: sd_store_insert)
next
  case (Some q)
  then show ?thesis
    using set_entries_store [of p "q @ [e]" sb] set_entries_queue [OF Some] by auto
qed

lemma handle_remaining_entries:
  "set (entries (own side (m_book (handle_remaining side ty price order_id s))))
   \<subseteq> insert \<lparr>e_order_id = order_id, e_quantity = m_remaining s\<rparr>
        (set (entries (own side (m_book s))))"
  unfolding handle_remaining_own
  using rest_entries [of _ "own side (m_book s)" "\<lparr>e_order_id = order_id, e_quantity = m_remaining s\<rparr>"]
  by (cases "case price of Some p \<Rightarrow> Some p | None \<Rightarrow> m_match_price s") auto

lemma remove_resting_entries: "set (entries (remove_resting i price sb)) \<subseteq> set (entries sb)"
proof (cases price)
  case None
  then show ?thesis by (simp add: remove_resting_def)
next
  case (Some p)
  show ?thesis
  proof (cases "map_of sb p")
    case None
    then show ?thesis using Some by (simp add: remove_resting_def)
  next
    case (Some q)
    have "set (entries (sd_store p (remove_order i q) sb)) \<subseteq> set (entries sb)"
      using set_entries_store [of p "remove_order i q" sb] set_remove_order [of i q]
        set_entries_queue [OF Some] by blast
    moreover have "set (entries (sd_del p sb)) \<subseteq> set (entries sb)"
      using set_entries_del .
    ultimately show ?thesis using \<open>price = Some p\<close> Some
      by (simp add: remove_resting_def Let_def sd_del_store)
  qed
qed

lemma match_loop_own:
  assumes run: "match_loop symbol side ty price order_id s = Inr s'"
  shows "own side (m_book s') = own side (m_book s)"
  by (rule match_loop_rule [OF run, where P = "\<lambda>s1. own side (m_book s1) = own side (m_book s)"])
     (simp_all add: fill_own)

lemma handle_remaining_find_one:
  "find_one (m_orders (handle_remaining side ty price order_id s)) i \<noteq> None
   \<longleftrightarrow> find_one (m_orders s) i \<noteq> None"
  unfolding handle_remaining_orders by (simp add: find_one_update_one)

lemma book_of_entries:
  assumes "e \<in> set (entries (bids (book_of st k)) @ entries (asks (book_of st k)))"
  shows "\<exists>b. order_books st k = Some b \<and> e \<in> set (entries (bids b) @ entries (asks b))"
  using assms by (cases "order_books st k") (simp_all add: book_of_def entries_def)

lemma ledger_okI:
  assumes "\<forall>t \<in> set (trades_collection st). 0 < t_quantity t
         \<and> orig h (maker_order_id t) \<noteq> None \<and> orig h (taker_order_id t) \<noteq> None"
    and "\<forall>i. orig h i \<noteq> None \<longrightarrow> find_one (orders_collection st) i \<noteq> None"
    and "\<forall>i q. orig h i = Some q \<longrightarrow> traded (trades_collection st) i \<le> q"
    and "\<And>symbol b e. order_books st symbol = Some b
         \<Longrightarrow> e \<in> set (entries (bids b) @ entries (asks b))
         \<Longrightarrow> \<exists>q. orig h (e_order_id e) = Some q
                \<and> traded (trades_collection st) (e_order_id e) + e_quantity e \<le> q"
    and "distinct (map snd h)"
  shows "ledger_ok h st"
  unfolding ledger_ok_def using assms by blast

lemma ledger_okD:
  assumes "ledger_ok h st"
  shows "\<forall>t \<in> set (trades_collection st). 0 < t_quantity t
         \<and> orig h (maker_order_id t) \<noteq> None \<and> orig h (taker_order_id t) \<noteq> None"
    and "\<forall>i. orig h i \<noteq> None \<longrightarrow> find_one (orders_collection st) i \<noteq> None"
    and "\<forall>i q. orig h i = Some q \<longrightarrow> traded (trades_collection st) i \<le> q"
    and "\<And>symbol b e. order_books st symbol = Some b
         \<Longrightarrow> e \<in> set (entries (bids b) @ entries (asks b))
         \<Longrightarrow> \<exists>q. orig h (e_order_id e) = Some q
                \<and> traded (trades_collection st) (e_order_id e) + e_quantity e \<le> q"
    and "distinct (map snd h)"
  using assms unfolding ledger_ok_def by blast+

lemma located_entry:
  assumes "located locf k b" "e \<in> set (entries (own side b))"
  shows "\<exists>p. locf (e_order_id e) = Some (k, side = ''buy'', Some p)"
  using assms side_located_entry unfolding located_sides [of _ _ _ side] by blast

lemma located_entry_opp:
  assumes "located locf k b" "e \<in> set (entries (opposite side b))"
  shows "\<exists>p. locf (e_order_id e) = Some (k, side \<noteq> ''buy'', Some p)"
  using assms side_located_entry unfolding located_sides [of _ _ _ side] by blast

lemma cancel_order_ledger:
  assumes led: "ledger_ok h st" and can: "cancel_order st cancel usr = Inr (r, st')"
  shows "ledger_ok h st'"
proof -
  from can obtain d where d: "find_one (orders_collection st) (c_order_id cancel) = Some d"
    unfolding cancel_order_unfold by (auto split: option.splits)
  let ?k = "upper (d_symbol d)"
  let ?b = "book_of st ?k"
  let ?i = "c_order_id cancel"
  let ?b' = "if d_side d = ''buy''
             then ?b\<lparr>bids := remove_resting ?i (d_price d) (bids ?b)\<rparr>
             else ?b\<lparr>asks := remove_resting ?i (d_price d) (asks ?b)\<rparr>"
  have st': "st' = st\<lparr>order_books := (order_books st)(?k \<mapsto> ?b'),
                    orders_collection := update_one (orders_collection st) ?i
                               (\<lambda>d. d\<lparr>d_status := ''cancelled''\<rparr>)\<rparr>"
    using can d unfolding cancel_order_unfold by (auto split: if_splits)
  have ts: "trades_collection st' = trades_collection st" unfolding st' by simp
  have ob: "order_books st' = (order_books st)(?k \<mapsto> ?b')" unfolding st' by simp
  have fo: "find_one (orders_collection st') i \<noteq> None \<longleftrightarrow> find_one (orders_collection st) i \<noteq> None" for i
    unfolding st' by (simp add: find_one_update_one)
  have sub: "set (entries (bids ?b') @ entries (asks ?b')) \<subseteq> set (entries (bids ?b) @ entries (asks ?b))"
    using remove_resting_entries [of ?i "d_price d" "bids ?b"]
      remove_resting_entries [of ?i "d_price d" "asks ?b"]
    by (cases "d_side d = ''buy''") auto
  show ?thesis
  proof (rule ledger_okI)
    show "\<forall>t \<in> set (trades_collection st'). 0 < t_quantity t
         \<and> orig h (maker_order_id t) \<noteq> None \<and> orig h (taker_order_id t) \<noteq> None"
      unfolding ts using ledger_okD(1) [OF led] .
    show "\<forall>i. orig h i \<noteq> None \<longrightarrow> find_one (orders_collection st') i \<noteq> None"
      unfolding fo using ledger_okD(2) [OF led] .
    show "\<forall>i q. orig h i = Some q \<longrightarrow> traded (trades_collection st') i \<le> q"
      unfolding ts using ledger_okD(3) [OF led] .
    show "distinct (map snd h)" using ledger_okD(5) [OF led] .
  next
    fix symbol b e
    assume b: "order_books st' symbol = Some b" and e: "e \<in> set (entries (bids b) @ entries (asks b))"
    have "\<exists>b0. order_books st symbol = Some b0 \<and> e \<in> set (entries (bids b0) @ entries (asks b0))"
    proof (cases "symbol = ?k")
      case True
      then have "b = ?b'" using b ob by simp
      then have "e \<in> set (entries (bids ?b) @ entries (asks ?b))" using e sub by blast
      then show ?thesis using book_of_entries True by blast
    next
      case False
      then show ?thesis using b e ob by simp
    qed
    then show "\<exists>q. orig h (e_order_id e) = Some q
                \<and> traded (trades_collection st') (e_order_id e) + e_quantity e \<le> q"
      unfolding ts using ledger_okD(4) [OF led] by blast
  qed
qed


lemma submit_order_ledger:
  assumes ok: "books_ok st" and loc: "books_located st" and led: "ledger_ok h st"
    and fresh: "find_one (orders_collection st) c = None"
    and sub: "submit_order st order usr c = Inr (r, st')"
  shows "ledger_ok (h @ [(order, c)]) st'"
proof -
  let ?k = "upper (in_symbol order)" and ?side = "lower (in_side order)"
  let ?ty = "lower (in_order_type order)" and ?price = "taker_price order"
  let ?db = "orders_collection st" and ?ts = "trades_collection st"
  let ?L = "loc_of ?db"
  let ?h' = "h @ [(order, c)]"
  let ?Q = "in_quantity order"
  let ?b0 = "book_of st ?k"
  note L = ledger_okD [OF led]
  have Qpos: "0 < ?Q" using submit_order_valid(1) [OF sub] .
  have QC: "orig h c = None" using L(2) fresh by blast
  have oh: "orig ?h' i = (if orig h i = None then (if i = c then Some ?Q else None) else orig h i)" for i
    unfolding orig_snoc by (cases "orig h i") simp_all
  have ext: "orig ?h' i \<noteq> None" if "orig h i \<noteq> None" for i
    using that unfolding oh by simp
  have tc0: "traded ?ts c = 0"
    using traded_absent [of ?ts c] L(1) QC by blast
  have dh: "distinct (map snd ?h')"
    using L(5) QC unfolding orig_None by simp
  have LC: "?L c = None" using fresh by (simp add: loc_of_None)
  from sub show ?thesis
  proof (cases rule: submit_order_cases)
    case rejected
    have ts: "trades_collection st' = ?ts" unfolding rejected(4) by simp
    have ob: "order_books st' = (order_books st)(?k \<mapsto> ?b0)" unfolding rejected(4) by simp
    have fo: "find_one (orders_collection st') i \<noteq> None" if "orig ?h' i \<noteq> None" for i
      using that L(2) unfolding rejected(4) oh
      by (auto simp: find_one_update_one find_one_insert_one new_doc_def split: option.splits if_splits)
    show ?thesis
    proof (rule ledger_okI)
      show "\<forall>t \<in> set (trades_collection st'). 0 < t_quantity t
         \<and> orig ?h' (maker_order_id t) \<noteq> None \<and> orig ?h' (taker_order_id t) \<noteq> None"
        unfolding ts using L(1) ext by blast
      show "\<forall>i. orig ?h' i \<noteq> None \<longrightarrow> find_one (orders_collection st') i \<noteq> None"
        using fo by blast
      show "\<forall>i q. orig ?h' i = Some q \<longrightarrow> traded (trades_collection st') i \<le> q"
        unfolding ts oh using L(3) tc0 Qpos by (auto split: if_splits)
      show "distinct (map snd ?h')" using dh .
    next
      fix symbol b e
      assume b: "order_books st' symbol = Some b" and e: "e \<in> set (entries (bids b) @ entries (asks b))"
      have "\<exists>b0. order_books st symbol = Some b0 \<and> e \<in> set (entries (bids b0) @ entries (asks b0))"
      proof (cases "symbol = ?k")
        case True
        then have "b = ?b0" using b ob by simp
        then show ?thesis using book_of_entries e True by blast
      next
        case False
        then show ?thesis using b e ob by simp
      qed
      then obtain q where "orig h (e_order_id e) = Some q" "traded ?ts (e_order_id e) + e_quantity e \<le> q"
        using L(4) by blast
      then show "\<exists>q. orig ?h' (e_order_id e) = Some q
                \<and> traded (trades_collection st') (e_order_id e) + e_quantity e \<le> q"
        unfolding ts oh by simp
    qed
  next
    case (matched s1)
    let ?s0 = "start_state st order usr c"
    let ?s2 = "handle_remaining ?side ?ty ?price c s1"
    let ?ts1 = "m_trades s1"
    let ?ids0 = "e_order_id ` set (entries (opposite ?side ?b0))"
    have ts: "trades_collection st' = ?ts1" unfolding matched(4) by simp
    have ob: "order_books st' = (order_books st)(?k \<mapsto> m_book ?s2)" unfolding matched(4) by simp
    have db: "orders_collection st' = m_orders ?s2" unfolding matched(4) by simp
    have bk0: "book_ok ?b0" using books_ok_book_of [OF ok] by simp
    have lc0: "located ?L ?k ?b0" using books_located_book_of [OF loc] .
    have E0: "\<forall>e \<in> set (entries (opposite ?side (m_book ?s0))).
               \<exists>q. orig h (e_order_id e) = Some q
                 \<and> traded (m_trades ?s0) (e_order_id e) + e_quantity e \<le> q"
    proof
      fix e assume "e \<in> set (entries (opposite ?side (m_book ?s0)))"
      then have "e \<in> set (entries (bids ?b0) @ entries (asks ?b0))"
        unfolding book_entries_sides [of _ ?side] by (simp add: start_state_simps)
      then show "\<exists>q. orig h (e_order_id e) = Some q
                 \<and> traded (m_trades ?s0) (e_order_id e) + e_quantity e \<le> q"
        using book_of_entries L(4) by (simp add: start_state_simps) blast
    qed
    have T0: "\<forall>t \<in> set (m_trades ?s0). 0 < t_quantity t \<and> orig h (maker_order_id t) \<noteq> None
               \<and> (taker_order_id t = c \<or> orig h (taker_order_id t) \<noteq> None)"
      using L(1) by (simp add: start_state_simps)
    have A0: "\<forall>i q. orig h i = Some q \<longrightarrow> traded (m_trades ?s0) i \<le> q"
      using L(3) by (simp add: start_state_simps)
    from match_loop_ledger [OF matched(1), of ?L ?k "orig h", OF _ _ QC _ E0 A0 T0] bk0 lc0 Qpos
    have r1: "0 \<le> m_remaining s1"
      and R: "traded ?ts1 c + m_remaining s1 = ?Q"
      and E: "\<forall>e \<in> set (entries (opposite ?side (m_book s1))).
               \<exists>q. orig h (e_order_id e) = Some q \<and> traded ?ts1 (e_order_id e) + e_quantity e \<le> q"
      and A: "\<forall>i q. orig h i = Some q \<longrightarrow> traded ?ts1 i \<le> q"
      and T: "\<forall>t \<in> set ?ts1. 0 < t_quantity t \<and> orig h (maker_order_id t) \<noteq> None
               \<and> (taker_order_id t = c \<or> orig h (taker_order_id t) \<noteq> None)"
      and U: "\<forall>i. i \<noteq> c \<longrightarrow> i \<notin> ?ids0 \<longrightarrow> traded ?ts1 i = traded ?ts i"
      by (simp_all add: start_state_simps tc0)
    have ids0: "\<exists>p. ?L i = Some (?k, ?side \<noteq> ''buy'', Some p)" if "i \<in> ?ids0" for i
      using that located_entry_opp [OF lc0, of _ ?side] by blast
    have fo: "find_one (orders_collection st') i \<noteq> None" if "orig ?h' i \<noteq> None" for i
    proof -
      have "find_one (m_orders ?s0) i \<noteq> None"
        using that L(2) unfolding oh
        by (auto simp: start_state_simps find_one_insert_one new_doc_def split: option.splits if_splits)
      then have "find_one (m_orders s1) i \<noteq> None" using match_loop_find_one [OF matched(1)] by blast
      then show ?thesis unfolding db handle_remaining_find_one .
    qed
    show ?thesis
    proof (rule ledger_okI)
      show "\<forall>t \<in> set (trades_collection st'). 0 < t_quantity t
         \<and> orig ?h' (maker_order_id t) \<noteq> None \<and> orig ?h' (taker_order_id t) \<noteq> None"
        unfolding ts using T unfolding oh by auto
      show "\<forall>i. orig ?h' i \<noteq> None \<longrightarrow> find_one (orders_collection st') i \<noteq> None"
        using fo by blast
      show "\<forall>i q. orig ?h' i = Some q \<longrightarrow> traded (trades_collection st') i \<le> q"
        unfolding ts oh using A R r1 by (auto split: if_splits)
      show "distinct (map snd ?h')" using dh .
    next
      fix symbol b e
      assume b: "order_books st' symbol = Some b" and e: "e \<in> set (entries (bids b) @ entries (asks b))"
      have old: "\<exists>q. orig ?h' (e_order_id e) = Some q \<and> traded ?ts1 (e_order_id e) + e_quantity e \<le> q"
        if b0: "order_books st sym = Some b0" and e0: "e \<in> set (entries (bids b0) @ entries (asks b0))"
          and nl: "\<forall>p. ?L (e_order_id e) \<noteq> Some (?k, ?side \<noteq> ''buy'', Some p)" for sym b0
      proof -
        obtain q where q: "orig h (e_order_id e) = Some q" "traded ?ts (e_order_id e) + e_quantity e \<le> q"
          using L(4) [OF b0 e0] by blast
        have "e_order_id e \<noteq> c" using q(1) QC by auto
        moreover have "e_order_id e \<notin> ?ids0" using ids0 nl by blast
        ultimately have "traded ?ts1 (e_order_id e) = traded ?ts (e_order_id e)" using U by blast
        then show ?thesis using q unfolding oh by simp
      qed
      show "\<exists>q. orig ?h' (e_order_id e) = Some q
                \<and> traded (trades_collection st') (e_order_id e) + e_quantity e \<le> q"
        unfolding ts
      proof (cases "symbol = ?k")
        case False
        then have b0: "order_books st symbol = Some b" using b ob by simp
        have "located ?L symbol b" using loc b0 unfolding books_located_def by blast
        then have "\<exists>isbid p. ?L (e_order_id e) = Some (symbol, isbid, Some p)"
          using e side_located_entry unfolding located_def by (metis UnE set_append)
        then have "\<forall>p. ?L (e_order_id e) \<noteq> Some (?k, ?side \<noteq> ''buy'', Some p)"
          using False by auto
        from old [OF b0 e this] show "\<exists>q. orig ?h' (e_order_id e) = Some q
                \<and> traded ?ts1 (e_order_id e) + e_quantity e \<le> q" .
      next
        case True
        then have bb: "b = m_book ?s2" using b ob by simp
        have "e \<in> set (entries (own ?side (m_book ?s2))) \<union> set (entries (opposite ?side (m_book ?s2)))"
          using e unfolding bb book_entries_sides [of _ ?side] .
        then consider (opp) "e \<in> set (entries (opposite ?side (m_book s1)))"
          | (new) "e = \<lparr>e_order_id = c, e_quantity = m_remaining s1\<rparr>"
          | (own) "e \<in> set (entries (own ?side ?b0))"
          using handle_remaining_entries [of ?side ?ty ?price c s1]
          unfolding handle_remaining_opposite match_loop_own [OF matched(1)]
          by (auto simp: start_state_simps)
        then show "\<exists>q. orig ?h' (e_order_id e) = Some q
                \<and> traded ?ts1 (e_order_id e) + e_quantity e \<le> q"
        proof cases
          case opp
          then show ?thesis using E unfolding oh by fastforce
        next
          case new
          then show ?thesis using R QC unfolding oh by simp
        next
          case own
          then have e0: "e \<in> set (entries (bids ?b0) @ entries (asks ?b0))"
            unfolding book_entries_sides [of _ ?side] by simp
          then obtain b0 where b0: "order_books st ?k = Some b0"
            "e \<in> set (entries (bids b0) @ entries (asks b0))"
            using book_of_entries by blast
          have "\<exists>p. ?L (e_order_id e) = Some (?k, ?side = ''buy'', Some p)"
            using located_entry [OF lc0 own] .
          then have "\<forall>p. ?L (e_order_id e) \<noteq> Some (?k, ?side \<noteq> ''buy'', Some p)" by auto
          from old [OF b0 this] show ?thesis .
        qed
      qed
    qed
  qed
qed


lemma reachable_by_ledger: "reachable_by h st \<Longrightarrow> ledger_ok h st"
proof (induction rule: reachable_by.induct)
  case start
  show ?case
    by (rule ledger_okI) (simp_all add: init_engine_def orig_def)
next
  case (submit h st order_id order usr r st')
  have "books_ok st" using reachable_books_ok [OF reachable_by_reachable [OF submit(1)]] .
  moreover have "books_located st" using reachable_by_located [OF submit(1)] .
  ultimately show ?case using submit_order_ledger submit by blast
next
  case (cancel h st cancel usr r st')
  then show ?case using cancel_order_ledger by blast
qed

subsection \<open>The loop of an IOC order\<close>

lemma match_loop_ioc:
  assumes "match_loop symbol side ''ioc'' price order_id s = Inr s'"
  shows "length (m_trades_executed s') \<le> Suc (length (m_trades_executed s))"
proof (cases "0 < m_remaining s")
  case False
  then show ?thesis using assms by (simp add: match_loop.simps)
next
  case True
  define r where "r = match_iter symbol side ''ioc'' price order_id s"
  then have "match_iter symbol side ''ioc'' price order_id s = r" by simp
  then show ?thesis
  proof (cases rule: match_iter_cases)
    case blocked
    then show ?thesis using assms True r_def by (simp add: match_loop.simps)
  next
    case (raise e)
    then show ?thesis using assms True r_def by (simp add: match_loop.simps)
  next
    case (trade p maker rest)
    then have "s' = fill symbol side order_id p maker rest s"
      using assms True r_def by (simp add: match_loop.simps)
    then show ?thesis by (simp add: fill_trades_executed)
  qed
qed

lemma ioc_at_most_one_trade:
  assumes "lower (in_order_type order) = ''ioc''"
    and "submit_order st order usr order_id = Inr (r, st')"
    and "map_of r ''trades'' = Some (JTrades ts)"
  shows "length ts \<le> 1"
  using assms(2)
proof (cases rule: submit_order_cases)
  case rejected
  then show ?thesis using assms(1) by simp
next
  case (matched s1)
  have "length (m_trades_executed s1) \<le> Suc 0"
    using match_loop_ioc [of "upper (in_symbol order)" "lower (in_side order)" "taker_price order"
        order_id "start_state st order usr order_id" s1] matched(1) assms(1)
    by (simp add: start_state_simps)
  then show ?thesis using matched(3) assms(3) by simp
qed

subsection \<open>Evaluation on floats\<close>

lemma scale_up_numeral:
  "scale_up (numeral k) x e = (if x < 1 then scale_up (pred_numeral k) (2 * x) (e - 1) else e)"
  by (simp add: numeral_eq_Suc)

lemma scale_down_numeral:
  "scale_down (numeral k) x e =
     (if 2 \<le> x then scale_down (pred_numeral k) (x / 2) (e + 1) else e)"
  by (simp add: numeral_eq_Suc)

lemma floor_numeral_quotient:
  "\<lfloor>(numeral a :: rat) / numeral b\<rfloor> = (numeral a :: int) div numeral b"
  using floor_divide_of_int_eq [of "numeral a" "numeral b", where ?'a = rat] by simp

lemmas float_defs = round64_def binade_def round_even_def pow2_def Let_def
  floor_numeral_quotient scale_up_numeral scale_down_numeral dec_def fadd_def fsub_def
  flt_def fle_def feq_def pymin_def py_sum_def

lemmas feval_defs = float_defs
  upper_def lower_def upper_char_def lower_char_def insert_one_def alice_def
  insort_right_def sortedlist_add_def sortedlist_remove_def contains_value_def setitem_def
  delitem_def peekitem_def empty_sd_def get_order_book_f_def get_best_price_f_def
  fok_available_f_def fill_f_def execute_trade_f_def match_iter_f_def handle_remaining_f_def
  submit_order_f_def remove_resting_f_def cancel_order_f_def init_engine_f_def order_in_f_def
  fbtc_def fdoc_def fent_def ftrd_def crossed_def
  match_loop_f.simps bisect_right.simps bisect_left.simps

text \<open>
  The decimal quantities of the scenarios as binary64 values, and the two results of float
  arithmetic that decide the fill-or-kill scenario: the sum the pre-check computes is the
  float 0.4, and the remainder the loop computes is not zero.
\<close>

lemma dec_tenths:
  "dec (1 / 10) = Fin (3602879701896397 / 2 ^ 55)"
  "dec (3 / 10) = Fin (5404319552844595 / 2 ^ 54)"
  "dec (4 / 10) = Fin (3602879701896397 / 2 ^ 53)"
  by (simp_all add: float_defs)

lemma float_sum_and_remainder:
  "fadd (fadd (Fin 0) (dec (1 / 10))) (dec (3 / 10)) = dec (4 / 10)"
  "fsub (fsub (dec (4 / 10)) (dec (1 / 10))) (dec (3 / 10)) = Fin (1 / 2 ^ 54)"
  by (simp_all add: float_defs)

section \<open>Properties of the engine\<close>

subsection \<open>An IOC order trades with one maker only\<close>

text \<open>
  Claim C1 says that an IOC order keeps matching while it has a remainder and the best
  opposite level is marketable, so that it fills from several makers in turn. The loop of
  \<open>submit_order\<close> leaves after the first execution when the type is \<^verbatim>\<open>ioc\<close> (line 209):
  with two resting asks of quantity 1 at price 100, an IOC buy of quantity 2 at 100 trades
  only with the first of them and the second stays in the book, still marketable. In
  general no IOC submission returns more than one trade (\<open>ioc_at_most_one_trade\<close>).
\<close>

theorem ioc_stops_after_first_maker:
  "map_sum id (\<lambda>(r, st'). (r, book_of st' ''BTC-USD''))
    (submit_order (submits init_engine [(order_in ''limit'' ''sell'' 1 (Some 100), ''A''),
      (order_in ''limit'' ''sell'' 1 (Some 100), ''B'')]) (order_in ''ioc'' ''buy'' 2 (Some 100)) alice ''C'')
   = Inr ([(''order_id'', JStr ''C''), (''trades'', JTrades [\<lparr>t_symbol = ''BTC-USD'', t_price = 100, t_quantity = 1,
           maker_order_id = ''A'', taker_order_id = ''C'', aggressor_side = ''buy''\<rparr>])],
        \<lparr>bids = [], asks = [(100, [\<lparr>e_order_id = ''B'', e_quantity = 1\<rparr>])]\<rparr>)"
  by (simp add: eval_defs)

subsection \<open>What a submission returns\<close>




subsection \<open>Trades are made at the maker's price\<close>

text \<open>
  Claim C6: every trade of a submission is executed at the price of the level its maker
  rests at, never at the taker's limit when the maker's price is more favourable. For a
  submission against a well-formed book, every returned trade has as its price a key of the
  opposite side of the book before the submission, its maker is an order of the deque at
  that key, and that price is marketable for the taker (at most the limit of a buy, at
  least the limit of a sell). The witness is the scenario of a limit buy at 105 against a
  resting ask at 100, which trades at 100.
\<close>

theorem trade_at_maker_price:
  assumes "submit_order st order usr order_id = Inr (r, st')"
    and "map_of r ''trades'' = Some (JTrades ts)"
    and "book_ok (book_of st (upper (in_symbol order)))"
    and "t \<in> set ts"
  shows "\<exists>q e. map_of (opposite (lower (in_side order)) (book_of st (upper (in_symbol order))))
                 (t_price t) = Some q
           \<and> e \<in> set q \<and> e_order_id e = maker_order_id t
           \<and> marketable (lower (in_side order)) (taker_price order) (t_price t)"
proof -
  let ?side = "lower (in_side order)" and ?b = "book_of st (upper (in_symbol order))"
  from submit_order_trades_prefix [OF assms(1-3)]
  have pre: "map (\<lambda>t. (t_price t, maker_order_id t)) ts
        = take (length ts) (map (\<lambda>(p, e). (p, e_order_id e)) (priority ?side ?b))"
    and m: "marketable ?side (taker_price order) (t_price t)"
    using assms(4) by auto
  have "(t_price t, maker_order_id t) \<in> set (map (\<lambda>t. (t_price t, maker_order_id t)) ts)"
    using assms(4) by force
  then have "(t_price t, maker_order_id t) \<in> set (map (\<lambda>(p, e). (p, e_order_id e)) (priority ?side ?b))"
    unfolding pre by (rule in_set_takeD)
  then obtain e where e: "(t_price t, e) \<in> set (priority ?side ?b)" "e_order_id e = maker_order_id t"
    by auto
  then obtain q where q: "(t_price t, q) \<in> set (opposite ?side ?b)" "e \<in> set q"
    unfolding set_priority by blast
  have "distinct (map fst (opposite ?side ?b))"
    using assms(3) sd_ok_distinct by (simp add: book_ok_sides [of _ ?side])
  then have "map_of (opposite ?side ?b) (t_price t) = Some q"
    using q(1) by simp
  then show ?thesis using q(2) e(2) m by blast
qed

theorem trade_at_maker_price_witness:
  "submit_order (btc [] [(100, [ent ''A'' 1])] [doc ''A'' ''limit'' ''sell'' 1 (Some 100) ''open''] [])
     (order_in ''limit'' ''buy'' 1 (Some 105)) alice ''C''
   = Inr ([(''order_id'', JStr ''C''), (''trades'', JTrades [trd 100 1 ''A'' ''C'' ''buy''])],
          btc [] [] [doc ''A'' ''limit'' ''sell'' 1 (Some 100) ''filled'',
                     doc ''C'' ''limit'' ''buy'' 1 (Some 105) ''filled'']
              [trd 100 1 ''A'' ''C'' ''buy''])
   \<and> book_ok (book_of (btc [] [(100, [ent ''A'' 1])] [doc ''A'' ''limit'' ''sell'' 1 (Some 100) ''open''] [])
        (upper (in_symbol (order_in ''limit'' ''buy'' 1 (Some 105)))))
   \<and> t_price (trd 100 1 ''A'' ''C'' ''buy'') = 100
   \<and> taker_price (order_in ''limit'' ''buy'' 1 (Some 105)) = Some 105
   \<and> (\<exists>q e. map_of (opposite (lower (in_side (order_in ''limit'' ''buy'' 1 (Some 105))))
            (book_of (btc [] [(100, [ent ''A'' 1])] [doc ''A'' ''limit'' ''sell'' 1 (Some 100) ''open''] [])
               (upper (in_symbol (order_in ''limit'' ''buy'' 1 (Some 105))))))
          (t_price (trd 100 1 ''A'' ''C'' ''buy'')) = Some q
        \<and> e \<in> set q \<and> e_order_id e = maker_order_id (trd 100 1 ''A'' ''C'' ''buy'')
        \<and> marketable (lower (in_side (order_in ''limit'' ''buy'' 1 (Some 105))))
            (taker_price (order_in ''limit'' ''buy'' 1 (Some 105))) (t_price (trd 100 1 ''A'' ''C'' ''buy'')))"
proof -
  let ?st = "btc [] [(100, [ent ''A'' 1])] [doc ''A'' ''limit'' ''sell'' 1 (Some 100) ''open''] []"
  let ?order = "order_in ''limit'' ''buy'' 1 (Some 105)"
  let ?r = "[(''order_id'', JStr ''C''), (''trades'', JTrades [trd 100 1 ''A'' ''C'' ''buy''])]"
  have h1: "submit_order ?st ?order alice ''C''
   = Inr (?r, btc [] [] [doc ''A'' ''limit'' ''sell'' 1 (Some 100) ''filled'',
                     doc ''C'' ''limit'' ''buy'' 1 (Some 105) ''filled'']
              [trd 100 1 ''A'' ''C'' ''buy''])"
    by (simp add: eval_defs)
  have h2: "map_of ?r ''trades'' = Some (JTrades [trd 100 1 ''A'' ''C'' ''buy''])"
    by simp
  have h3: "book_ok (book_of ?st (upper (in_symbol ?order)))"
    by (simp add: eval_defs)
  have h4: "trd 100 1 ''A'' ''C'' ''buy'' \<in> set [trd 100 1 ''A'' ''C'' ''buy'']"
    by simp
  have h5: "t_price (trd 100 1 ''A'' ''C'' ''buy'') = 100"
    "taker_price ?order = Some 105"
    by (simp_all add: trd_def taker_price_def eval_defs)
  show ?thesis
    using h1 h3 h5 trade_at_maker_price [OF h1 h2 h3 h4] by blast
qed

subsection \<open>Price-time priority on exact decimals\<close>

text \<open>
  With exact decimals and prices that are numbers, an incoming order fills resting orders
  in the order of the priority view. For a submission against a well-formed book, (1) the k-th returned trade is made with the k-th
  resting order of the opposite side in priority order, at the price of its level;
  (2) that order lists the levels best price first (ascending asks for a buy, descending
  bids for a sell); and (3) two orders O1 before O2 in the deque of one level (O1 was
  appended, that is inserted, first) occupy positions k + i < k + j of the priority order,
  so that whenever O2 is traded with, O1 has been traded with by an earlier trade of the
  same submission, both at the price of the level.
\<close>

theorem price_time_priority:
  assumes "submit_order st order usr order_id = Inr (r, st')"
    and "map_of r ''trades'' = Some (JTrades ts)"
    and "book_ok (book_of st (upper (in_symbol order)))"
  shows "map (\<lambda>t. (t_price t, maker_order_id t)) ts
           = take (length ts) (map (\<lambda>(p, e). (p, e_order_id e))
               (priority (lower (in_side order)) (book_of st (upper (in_symbol order)))))
     \<and> (if lower (in_side order) = ''buy''
         then sorted_wrt (\<le>) (map fst (priority (lower (in_side order)) (book_of st (upper (in_symbol order)))))
         else sorted_wrt (\<ge>) (map fst (priority (lower (in_side order)) (book_of st (upper (in_symbol order))))))
     \<and> (\<forall>p q i j. map_of (opposite (lower (in_side order)) (book_of st (upper (in_symbol order)))) p = Some q
            \<and> i < j \<and> j < length q
          \<longrightarrow> (\<exists>k. priority (lower (in_side order)) (book_of st (upper (in_symbol order))) ! (k + i) = (p, q ! i)
                 \<and> priority (lower (in_side order)) (book_of st (upper (in_symbol order))) ! (k + j) = (p, q ! j)
                 \<and> (k + j < length ts \<longrightarrow>
                       maker_order_id (ts ! (k + i)) = e_order_id (q ! i)
                     \<and> maker_order_id (ts ! (k + j)) = e_order_id (q ! j)
                     \<and> t_price (ts ! (k + i)) = p \<and> t_price (ts ! (k + j)) = p)))"
proof -
  let ?side = "lower (in_side order)" and ?b = "book_of st (upper (in_symbol order))"
  let ?PR = "map (\<lambda>(p, e). (p, e_order_id e)) (priority ?side ?b)"
  have pre: "map (\<lambda>t. (t_price t, maker_order_id t)) ts = take (length ts) ?PR"
    using submit_order_trades_prefix [OF assms] by blast
  have len: "length ts \<le> length (priority ?side ?b)"
    using arg_cong [OF pre, of length] by simp
  have key: "(t_price (ts ! n), maker_order_id (ts ! n)) = (fst (priority ?side ?b ! n), e_order_id (snd (priority ?side ?b ! n)))"
    if "n < length ts" for n
  proof -
    have "map (\<lambda>t. (t_price t, maker_order_id t)) ts ! n = take (length ts) ?PR ! n"
      using pre by simp
    then show ?thesis using that len by (simp add: case_prod_beta)
  qed
  have ok: "sd_ok (opposite ?side ?b)"
    using assms(3) by (simp add: book_ok_sides [of _ ?side])
  have fifo: "\<exists>k. priority ?side ?b ! (k + i) = (p, q ! i)
                 \<and> priority ?side ?b ! (k + j) = (p, q ! j)
                 \<and> (k + j < length ts \<longrightarrow>
                       maker_order_id (ts ! (k + i)) = e_order_id (q ! i)
                     \<and> maker_order_id (ts ! (k + j)) = e_order_id (q ! j)
                     \<and> t_price (ts ! (k + i)) = p \<and> t_price (ts ! (k + j)) = p)"
    if "map_of (opposite ?side ?b) p = Some q" "i < j" "j < length q" for p q i j
  proof -
    from priority_fifo [OF that(1) that(3)] obtain k
      where k: "\<forall>i < length q. priority ?side ?b ! (k + i) = (p, q ! i)" by blast
    have i: "priority ?side ?b ! (k + i) = (p, q ! i)" and j: "priority ?side ?b ! (k + j) = (p, q ! j)"
      using k that(2,3) by auto
    have "maker_order_id (ts ! (k + i)) = e_order_id (q ! i)
                     \<and> maker_order_id (ts ! (k + j)) = e_order_id (q ! j)
                     \<and> t_price (ts ! (k + i)) = p \<and> t_price (ts ! (k + j)) = p"
      if "k + j < length ts"
      using key [of "k + i"] key [of "k + j"] that \<open>i < j\<close> i j by simp
    then show ?thesis using i j by blast
  qed
  show ?thesis using pre priority_best_first [OF ok] fifo by blast
qed

theorem price_time_priority_witness:
  "submit_order (btc [] [(100, [ent ''A'' 1, ent ''B'' 1])]
       [doc ''A'' ''limit'' ''sell'' 1 (Some 100) ''open'', doc ''B'' ''limit'' ''sell'' 1 (Some 100) ''open''] [])
     (order_in ''market'' ''buy'' (3 / 2) None) alice ''C''
   = Inr ([(''order_id'', JStr ''C''),
           (''trades'', JTrades [trd 100 1 ''A'' ''C'' ''buy'', trd 100 (1 / 2) ''B'' ''C'' ''buy''])],
          btc [] [(100, [ent ''B'' (1 / 2)])]
            [doc ''A'' ''limit'' ''sell'' 1 (Some 100) ''filled'',
             doc ''B'' ''limit'' ''sell'' (1 / 2) (Some 100) ''partial'',
             doc ''C'' ''market'' ''buy'' (3 / 2) None ''filled'']
            [trd 100 1 ''A'' ''C'' ''buy'', trd 100 (1 / 2) ''B'' ''C'' ''buy''])
   \<and> book_ok (book_of (btc [] [(100, [ent ''A'' 1, ent ''B'' 1])]
       [doc ''A'' ''limit'' ''sell'' 1 (Some 100) ''open'', doc ''B'' ''limit'' ''sell'' 1 (Some 100) ''open''] [])
        (upper (in_symbol (order_in ''market'' ''buy'' (3 / 2) None))))
   \<and> map_of (opposite (lower (in_side (order_in ''market'' ''buy'' (3 / 2) None)))
         (book_of (btc [] [(100, [ent ''A'' 1, ent ''B'' 1])]
            [doc ''A'' ''limit'' ''sell'' 1 (Some 100) ''open'', doc ''B'' ''limit'' ''sell'' 1 (Some 100) ''open''] [])
          (upper (in_symbol (order_in ''market'' ''buy'' (3 / 2) None))))) 100
       = Some [ent ''A'' 1, ent ''B'' 1]
   \<and> map (\<lambda>t. (t_price t, maker_order_id t)) [trd 100 1 ''A'' ''C'' ''buy'', trd 100 (1 / 2) ''B'' ''C'' ''buy'']
       = take 2 (map (\<lambda>(p, e). (p, e_order_id e))
           (priority (lower (in_side (order_in ''market'' ''buy'' (3 / 2) None)))
              (book_of (btc [] [(100, [ent ''A'' 1, ent ''B'' 1])]
                 [doc ''A'' ''limit'' ''sell'' 1 (Some 100) ''open'', doc ''B'' ''limit'' ''sell'' 1 (Some 100) ''open''] [])
               (upper (in_symbol (order_in ''market'' ''buy'' (3 / 2) None))))))"
proof -
  let ?st = "btc [] [(100, [ent ''A'' 1, ent ''B'' 1])]
       [doc ''A'' ''limit'' ''sell'' 1 (Some 100) ''open'', doc ''B'' ''limit'' ''sell'' 1 (Some 100) ''open''] []"
  let ?order = "order_in ''market'' ''buy'' (3 / 2) None"
  let ?ts = "[trd 100 1 ''A'' ''C'' ''buy'', trd 100 (1 / 2) ''B'' ''C'' ''buy'']"
  let ?r = "[(''order_id'', JStr ''C''), (''trades'', JTrades ?ts)]"
  have h1: "submit_order ?st ?order alice ''C''
   = Inr (?r, btc [] [(100, [ent ''B'' (1 / 2)])]
            [doc ''A'' ''limit'' ''sell'' 1 (Some 100) ''filled'',
             doc ''B'' ''limit'' ''sell'' (1 / 2) (Some 100) ''partial'',
             doc ''C'' ''market'' ''buy'' (3 / 2) None ''filled''] ?ts)"
    by (simp add: eval_defs)
  have h2: "map_of ?r ''trades'' = Some (JTrades ?ts)"
    by simp
  have h3: "book_ok (book_of ?st (upper (in_symbol ?order)))"
    by (simp add: eval_defs)
  have h4: "map_of (opposite (lower (in_side ?order)) (book_of ?st (upper (in_symbol ?order)))) 100
       = Some [ent ''A'' 1, ent ''B'' 1]"
    by (simp add: eval_defs)
  have "map (\<lambda>t. (t_price t, maker_order_id t)) ?ts
       = take (length ?ts) (map (\<lambda>(p, e). (p, e_order_id e))
           (priority (lower (in_side ?order)) (book_of ?st (upper (in_symbol ?order)))))"
    using price_time_priority [OF h1 h2 h3] by blast
  then show ?thesis using h1 h3 h4 by (simp add: numeral_2_eq_2)
qed

subsection \<open>A NaN price breaks price priority\<close>

text \<open>
  Claim C5 says that an incoming order fills resting orders in price-time priority, and
  that the trades of a submission are made best opposite price first. The source accepts a
  NaN as the price of a limit order: the only check on the numbers of a request is
  \<^verbatim>\<open>qty <= 0\<close> (line 116). Resting that order (line 224) appends the NaN to the sorted
  list of keys, and a key added later is compared with the NaN, found not to be below it,
  and appended behind it. After limit sells at 100, NaN and 90 the keys of the asks are
  100, NaN, 90. \<^verbatim>\<open>peekitem(0)\<close> is then 100, which line 140 takes for the lowest ask: a
  limit buy of 0.5 at 100 trades at 100 with the order resting there, and the order at 90,
  which is the best opposite price and rested before the buy arrived, is not traded with.
\<close>

theorem nan_price_breaks_price_priority:
  "submit_order_f
     (submits_f init_engine_f
       [(order_in_f ''limit'' ''sell'' (dec 1) (Some (dec 100)), ''A''),
        (order_in_f ''limit'' ''sell'' (dec 1) (Some (NaN 1)), ''B''),
        (order_in_f ''limit'' ''sell'' (dec 1) (Some (dec 90)), ''C'')])
     (order_in_f ''limit'' ''buy'' (dec (1 / 2)) (Some (dec 100))) alice ''T''
   = Inr ([(''order_id'', FStr ''T''),
           (''trades'', FTrades [ftrd (Fin 100) (Fin (1 / 2)) ''A'' ''T'' ''buy''])],
          fbtc empty_sd
            \<lparr>sd_keys = [Fin 100, NaN 1, Fin 90],
             sd_items = [(Fin 100, [fent ''A'' (Fin (1 / 2))]), (NaN 1, [fent ''B'' (Fin 1)]),
                         (Fin 90, [fent ''C'' (Fin 1)])]\<rparr>
            [fdoc ''A'' ''limit'' ''sell'' (Fin (1 / 2)) (Some (Fin 100)) ''partial'',
             fdoc ''B'' ''limit'' ''sell'' (Fin 1) (Some (NaN 1)) ''open'',
             fdoc ''C'' ''limit'' ''sell'' (Fin 1) (Some (Fin 90)) ''open'',
             fdoc ''T'' ''limit'' ''buy'' (Fin (1 / 2)) (Some (Fin 100)) ''filled'']
            [ftrd (Fin 100) (Fin (1 / 2)) ''A'' ''T'' ''buy''])"
  by (simp add: feval_defs)

subsection \<open>No crossed book on exact decimals\<close>

text \<open>
  With exact decimals and prices that are numbers: in every state reachable by submissions
  and cancellations, in the book of every symbol the best bid is strictly below the best
  ask whenever both sides are non-empty.
\<close>

theorem no_crossed_book:
  assumes "reachable st" and "order_books st symbol = Some b"
  shows "uncrossed b
     \<and> (bids b \<noteq> [] \<and> asks b \<noteq> [] \<longrightarrow> fst (last (bids b)) < fst (hd (asks b)))"
proof -
  have "uncrossed b"
    using reachable_books_ok [OF assms(1)] assms(2) by (simp add: books_ok_def)
  then show ?thesis by (auto simp: uncrossed_def get_best_price_def)
qed

theorem no_crossed_book_witness:
  "reachable (btc [(99, [ent ''X'' 1])] [(100, [ent ''A'' 1])]
       [doc ''A'' ''limit'' ''sell'' 1 (Some 100) ''open'', doc ''X'' ''limit'' ''buy'' 1 (Some 99) ''open''] [])
   \<and> order_books (btc [(99, [ent ''X'' 1])] [(100, [ent ''A'' 1])]
       [doc ''A'' ''limit'' ''sell'' 1 (Some 100) ''open'', doc ''X'' ''limit'' ''buy'' 1 (Some 99) ''open''] [])
        ''BTC-USD'' = Some \<lparr>bids = [(99, [ent ''X'' 1])], asks = [(100, [ent ''A'' 1])]\<rparr>
   \<and> uncrossed \<lparr>bids = [(99, [ent ''X'' 1])], asks = [(100, [ent ''A'' 1])]\<rparr>
   \<and> fst (last (bids \<lparr>bids = [(99, [ent ''X'' 1])], asks = [(100, [ent ''A'' 1])]\<rparr>))
       < fst (hd (asks \<lparr>bids = [(99, [ent ''X'' 1])], asks = [(100, [ent ''A'' 1])]\<rparr>))"
proof -
  let ?st1 = "btc [] [(100, [ent ''A'' 1])] [doc ''A'' ''limit'' ''sell'' 1 (Some 100) ''open''] []"
  let ?st2 = "btc [(99, [ent ''X'' 1])] [(100, [ent ''A'' 1])]
       [doc ''A'' ''limit'' ''sell'' 1 (Some 100) ''open'', doc ''X'' ''limit'' ''buy'' 1 (Some 99) ''open''] []"
  have h1: "submit_order init_engine (order_in ''limit'' ''sell'' 1 (Some 100)) alice ''A''
            = Inr ([(''order_id'', JStr ''A''), (''trades'', JTrades [])], ?st1)"
    by (simp add: eval_defs)
  have h2: "submit_order ?st1 (order_in ''limit'' ''buy'' 1 (Some 99)) alice ''X''
            = Inr ([(''order_id'', JStr ''X''), (''trades'', JTrades [])], ?st2)"
    by (simp add: eval_defs)
  have r: "reachable ?st2"
    by (rule reachable.submit [OF reachable.submit [OF reachable.init h1] h2])
  have b: "order_books ?st2 ''BTC-USD''
           = Some \<lparr>bids = [(99, [ent ''X'' 1])], asks = [(100, [ent ''A'' 1])]\<rparr>"
    by (simp add: btc_def)
  show ?thesis using r b no_crossed_book [OF r b] by simp
qed

subsection \<open>A NaN price crosses the book\<close>

text \<open>
  Claim C4 says that in every reachable state the best bid of a book is strictly below its
  best ask. With the asks of the scenario of price priority (limit sells at 100, NaN and
  90, all accepted), the keys of the asks are 100, NaN, 90 and line 140 reads 100 as the best ask.
  A limit buy at 95 therefore finds nothing marketable (line 163), and its quantity rests
  (line 225): the book then holds a bid at 95 beside an ask at 90, and the engine's own
  best prices, 95 and 100, do not show it.
\<close>

theorem nan_price_crosses_book:
  "submits_f init_engine_f
     [(order_in_f ''limit'' ''sell'' (dec 1) (Some (dec 100)), ''A''),
      (order_in_f ''limit'' ''sell'' (dec 1) (Some (NaN 1)), ''B''),
      (order_in_f ''limit'' ''sell'' (dec 1) (Some (dec 90)), ''C''),
      (order_in_f ''limit'' ''buy'' (dec 1) (Some (dec 95)), ''D'')]
   = fbtc \<lparr>sd_keys = [Fin 95], sd_items = [(Fin 95, [fent ''D'' (Fin 1)])]\<rparr>
          \<lparr>sd_keys = [Fin 100, NaN 1, Fin 90],
           sd_items = [(Fin 100, [fent ''A'' (Fin 1)]), (NaN 1, [fent ''B'' (Fin 1)]),
                       (Fin 90, [fent ''C'' (Fin 1)])]\<rparr>
          [fdoc ''A'' ''limit'' ''sell'' (Fin 1) (Some (Fin 100)) ''open'',
           fdoc ''B'' ''limit'' ''sell'' (Fin 1) (Some (NaN 1)) ''open'',
           fdoc ''C'' ''limit'' ''sell'' (Fin 1) (Some (Fin 90)) ''open'',
           fdoc ''D'' ''limit'' ''buy'' (Fin 1) (Some (Fin 95)) ''open''] []
   \<and> crossed \<lparr>fbids = \<lparr>sd_keys = [Fin 95], sd_items = [(Fin 95, [fent ''D'' (Fin 1)])]\<rparr>,
               fasks = \<lparr>sd_keys = [Fin 100, NaN 1, Fin 90],
                        sd_items = [(Fin 100, [fent ''A'' (Fin 1)]), (NaN 1, [fent ''B'' (Fin 1)]),
                                    (Fin 90, [fent ''C'' (Fin 1)])]\<rparr>\<rparr>
   \<and> get_best_price_f
         \<lparr>sd_keys = [Fin 95], sd_items = [(Fin 95, [fent ''D'' (Fin 1)])]\<rparr>
         \<lparr>sd_keys = [Fin 100, NaN 1, Fin 90],
          sd_items = [(Fin 100, [fent ''A'' (Fin 1)]), (NaN 1, [fent ''B'' (Fin 1)]),
                      (Fin 90, [fent ''C'' (Fin 1)])]\<rparr>
       = Inr (Some (Fin 95), Some (Fin 100))"
  by (simp add: feval_defs)

subsection \<open>Fill-or-kill on exact decimals\<close>

text \<open>
  With exact decimals a FOK submission is all-or-nothing. For an accepted FOK order (positive
  quantity, a price) against a well-formed book: if the quantity resting at the marketable
  opposite levels is less than the requested quantity, the submission returns
  \<^verbatim>\<open>cancelled\<close> without trades, leaves every book and the trade log as they were and
  persists the status \<^verbatim>\<open>cancelled\<close>; otherwise it returns trades whose quantities sum to
  exactly the requested quantity, appends exactly these to the trade log and persists the
  status \<^verbatim>\<open>filled\<close>. In both cases the submission returns, it does not raise.
\<close>

theorem fok_all_or_nothing:
  assumes fok: "lower (in_order_type order) = ''fok''"
    and pos: "0 < in_quantity order" and pr: "in_price order \<noteq> None"
    and ok: "book_ok (book_of st (upper (in_symbol order)))"
  shows "if fok_available (lower (in_side order)) (in_price order)
              (book_of st (upper (in_symbol order))) < in_quantity order
         then \<exists>st'. submit_order st order usr order_id
                     = Inr ([(''order_id'', JStr order_id), (''status'', JStr ''cancelled''),
                             (''filled'', JBool False)], st')
                \<and> (\<forall>x. book_of st' x = book_of st x)
                \<and> trades_collection st' = trades_collection st
                \<and> map_option d_status (find_one (orders_collection st') order_id) = Some ''cancelled''
         else \<exists>ts st'. submit_order st order usr order_id
                     = Inr ([(''order_id'', JStr order_id), (''trades'', JTrades ts)], st')
                \<and> sum_list (map t_quantity ts) = in_quantity order
                \<and> trades_collection st' = trades_collection st @ ts
                \<and> map_option d_status (find_one (orders_collection st') order_id) = Some ''filled''"
proof -
  let ?symbol = "upper (in_symbol order)" and ?side = "lower (in_side order)"
  let ?b = "book_of st ?symbol"
  have tp: "taker_price order = in_price order" using fok by (simp add: taker_price_def)
  show ?thesis
  proof (cases "fok_available ?side (in_price order) ?b < in_quantity order")
    case True
    have "map_option d_status (find_one (update_one (insert_one (orders_collection st) (new_doc order usr order_id))
                    order_id (\<lambda>d. d\<lparr>d_status := ''cancelled''\<rparr>)) order_id) = Some ''cancelled''"
      by (simp add: find_one_update_one find_one_insert_one new_doc_def split: option.splits)
    then show ?thesis using True fok pos pr
      by (simp add: submit_order_unfold tp books_after_reject)
  next
    case False
    let ?s0 = "start_state st order usr order_id"
    have ok0: "sd_ok (opposite ?side (m_book ?s0))"
      using ok by (simp add: start_state_simps book_ok_sides [of _ ?side])
    from match_loop_exit [OF ok0, of ?symbol "''fok''" "in_price order" order_id]
    obtain s1 where run: "match_loop ?symbol ?side ''fok'' (in_price order) order_id ?s0 = Inr s1"
      and ex: "m_remaining s1 \<le> 0 \<or> levels ?side (m_book s1) = []
        \<or> \<not> marketable ?side (in_price order) (fst (hd (levels ?side (m_book s1))))"
      by auto
    have ok1: "sd_ok (opposite ?side (m_book s1))"
      using match_loop_ok_rule [OF run ok0, of "\<lambda>s. True"] by simp
    from match_loop_fok [OF run ok0] pos
    have r1: "0 \<le> m_remaining s1"
      and av: "avail ?side (in_price order) (levels ?side (m_book s1)) - m_remaining s1
         = fok_available ?side (in_price order) ?b - in_quantity order"
      and sm: "sum_list (map t_quantity (m_trades_executed s1)) + m_remaining s1 = in_quantity order"
      by (simp_all add: start_state_simps fok_available_levels)
    have "0 \<le> avail ?side (in_price order) (levels ?side (m_book s1)) - m_remaining s1"
      using av False by simp
    moreover have "m_remaining s1 \<le> 0 \<or> avail ?side (in_price order) (levels ?side (m_book s1)) = 0"
      using ex avail_blocked [OF ok1, of "in_price order"] by blast
    ultimately have rem: "m_remaining s1 = 0" using r1 by auto
    then have total: "sum_list (map t_quantity (m_trades_executed s1)) = in_quantity order"
      using sm by simp
    have "find_one (m_orders ?s0) order_id \<noteq> None"
      by (simp add: start_state_simps find_one_insert_one new_doc_def split: option.splits)
    from match_loop_find_one [OF run this]
    have st: "map_option d_status (find_one (m_orders (handle_remaining ?side ''fok'' (in_price order) order_id s1)) order_id)
              = Some ''filled''"
      using rem by (auto simp: handle_remaining_def find_one_update_one)
    obtain ts where tr: "m_trades s1 = trades_collection st @ ts" "m_trades_executed s1 = ts"
      using match_loop_trades_log [OF run] by (auto simp: start_state_simps)
    show ?thesis using False fok pos pr run total st tr
      by (simp add: submit_order_unfold tp)
  qed
qed

theorem fok_all_or_nothing_witness:
  "lower (in_order_type (order_in ''fok'' ''buy'' 1 (Some 101))) = ''fok''
   \<and> 0 < in_quantity (order_in ''fok'' ''buy'' 1 (Some 101))
   \<and> in_price (order_in ''fok'' ''buy'' 1 (Some 101)) \<noteq> None
   \<and> book_ok (book_of (btc [] [(100, [ent ''A'' (3 / 5)]), (101, [ent ''B'' (1 / 2)])]
         [doc ''A'' ''limit'' ''sell'' (3 / 5) (Some 100) ''open'',
          doc ''B'' ''limit'' ''sell'' (1 / 2) (Some 101) ''open''] [])
        (upper (in_symbol (order_in ''fok'' ''buy'' 1 (Some 101)))))
   \<and> fok_available (lower (in_side (order_in ''fok'' ''buy'' 1 (Some 101))))
        (in_price (order_in ''fok'' ''buy'' 1 (Some 101)))
        (book_of (btc [] [(100, [ent ''A'' (3 / 5)]), (101, [ent ''B'' (1 / 2)])]
         [doc ''A'' ''limit'' ''sell'' (3 / 5) (Some 100) ''open'',
          doc ''B'' ''limit'' ''sell'' (1 / 2) (Some 101) ''open''] [])
        (upper (in_symbol (order_in ''fok'' ''buy'' 1 (Some 101))))) = 11 / 10
   \<and> (\<exists>ts st'. submit_order (btc [] [(100, [ent ''A'' (3 / 5)]), (101, [ent ''B'' (1 / 2)])]
         [doc ''A'' ''limit'' ''sell'' (3 / 5) (Some 100) ''open'',
          doc ''B'' ''limit'' ''sell'' (1 / 2) (Some 101) ''open''] [])
          (order_in ''fok'' ''buy'' 1 (Some 101)) alice ''C''
        = Inr ([(''order_id'', JStr ''C''), (''trades'', JTrades ts)], st')
        \<and> sum_list (map t_quantity ts) = 1
        \<and> map_option d_status (find_one (orders_collection st') ''C'') = Some ''filled'')
   \<and> fok_available (lower (in_side (order_in ''fok'' ''buy'' 1 (Some 101))))
        (in_price (order_in ''fok'' ''buy'' 1 (Some 101)))
        (book_of (btc [] [(100, [ent ''A'' (2 / 5)])]
           [doc ''A'' ''limit'' ''sell'' (2 / 5) (Some 100) ''open''] [])
        (upper (in_symbol (order_in ''fok'' ''buy'' 1 (Some 101))))) = 2 / 5
   \<and> (\<exists>st'. submit_order (btc [] [(100, [ent ''A'' (2 / 5)])]
           [doc ''A'' ''limit'' ''sell'' (2 / 5) (Some 100) ''open''] [])
          (order_in ''fok'' ''buy'' 1 (Some 101)) alice ''C''
        = Inr ([(''order_id'', JStr ''C''), (''status'', JStr ''cancelled''), (''filled'', JBool False)], st')
        \<and> book_of st' ''BTC-USD'' = \<lparr>bids = [], asks = [(100, [ent ''A'' (2 / 5)])]\<rparr>
        \<and> trades_collection st' = [])"
proof -
  let ?order = "order_in ''fok'' ''buy'' 1 (Some 101)"
  let ?s5 = "btc [] [(100, [ent ''A'' (3 / 5)]), (101, [ent ''B'' (1 / 2)])]
         [doc ''A'' ''limit'' ''sell'' (3 / 5) (Some 100) ''open'',
          doc ''B'' ''limit'' ''sell'' (1 / 2) (Some 101) ''open''] []"
  let ?s4 = "btc [] [(100, [ent ''A'' (2 / 5)])]
           [doc ''A'' ''limit'' ''sell'' (2 / 5) (Some 100) ''open''] []"
  have h1: "lower (in_order_type ?order) = ''fok''"
    and h2: "0 < in_quantity ?order" and h3: "in_price ?order \<noteq> None"
    by (simp_all add: eval_defs)
  have h5: "book_ok (book_of ?s5 (upper (in_symbol ?order)))"
    and h4: "book_ok (book_of ?s4 (upper (in_symbol ?order)))"
    by (simp_all add: eval_defs)
  have a5: "fok_available (lower (in_side ?order)) (in_price ?order)
              (book_of ?s5 (upper (in_symbol ?order))) = 11 / 10"
    and a4: "fok_available (lower (in_side ?order)) (in_price ?order)
              (book_of ?s4 (upper (in_symbol ?order))) = 2 / 5"
    by (simp_all add: eval_defs)
  have q: "in_quantity ?order = 1" by (simp add: order_in_def)
  have b4: "book_of ?s4 ''BTC-USD'' = \<lparr>bids = [], asks = [(100, [ent ''A'' (2 / 5)])]\<rparr>"
    and t4: "trades_collection ?s4 = []"
    by (simp_all add: btc_def book_of_def)
  have c5: "\<exists>ts st'. submit_order ?s5 ?order alice ''C''
        = Inr ([(''order_id'', JStr ''C''), (''trades'', JTrades ts)], st')
        \<and> sum_list (map t_quantity ts) = 1
        \<and> map_option d_status (find_one (orders_collection st') ''C'') = Some ''filled''"
proof -
    have "\<not> fok_available (lower (in_side ?order)) (in_price ?order)
              (book_of ?s5 (upper (in_symbol ?order))) < in_quantity ?order"
      unfolding a5 q by simp
    with fok_all_or_nothing [OF h1 h2 h3 h5, of alice "''C''"] show ?thesis
      unfolding q by (simp only: if_False) blast
  qed
  have lt: "fok_available (lower (in_side ?order)) (in_price ?order)
              (book_of ?s4 (upper (in_symbol ?order))) < in_quantity ?order"
    unfolding a4 q by simp
  from fok_all_or_nothing [OF h1 h2 h3 h4, of alice "''C''"] lt
  obtain st' where r4: "submit_order ?s4 ?order alice ''C''
        = Inr ([(''order_id'', JStr ''C''), (''status'', JStr ''cancelled''), (''filled'', JBool False)], st')"
    and b: "\<forall>x. book_of st' x = book_of ?s4 x"
    and t: "trades_collection st' = trades_collection ?s4"
    by (simp only: if_True) blast
  have c4: "\<exists>st'. submit_order ?s4 ?order alice ''C''
        = Inr ([(''order_id'', JStr ''C''), (''status'', JStr ''cancelled''), (''filled'', JBool False)], st')
        \<and> book_of st' ''BTC-USD'' = \<lparr>bids = [], asks = [(100, [ent ''A'' (2 / 5)])]\<rparr>
        \<and> trades_collection st' = []"
    using r4 b t b4 t4 by simp
  show ?thesis using h1 h2 h3 h5 a5 c5 a4 c4 by blast
qed

subsection \<open>Fill-or-kill on floats: traded and then cancelled\<close>

text \<open>
  Claim C3 says that a FOK submission is all-or-nothing: cancelled without a trade when
  the marketable quantity is short of the requested one, and otherwise filled for exactly
  the requested quantity and finalized \<^verbatim>\<open>filled\<close>. The pre-check of lines 144-154 adds the
  resting quantities, the loop subtracts them from the order one by one, and on floats the
  two round differently. With asks of 0.1 at 100 and 0.3 at 101, a FOK buy of 0.4 at 101
  passes the pre-check, because 0.1 + 0.3 is the float 0.4; it trades 0.1 and 0.3 with
  the two makers; and its remainder, (0.4 - 0.1) - 0.3, is not zero but
  \<open>1 / 2 ^ 54\<close> (\<open>float_sum_and_remainder\<close>). The asks are empty by then, the loop ends,
  and line 231 persists the status \<^verbatim>\<open>cancelled\<close>: the order has traded with every maker
  and is recorded as cancelled.
\<close>

theorem fok_trades_then_cancelled:
  "fok_available_f ''buy'' (Some (dec 101))
     \<lparr>fbids = empty_sd,
      fasks = \<lparr>sd_keys = [Fin 100, Fin 101],
               sd_items = [(Fin 100, [fent ''A'' (dec (1 / 10))]),
                           (Fin 101, [fent ''B'' (dec (3 / 10))])]\<rparr>\<rparr> = Inr (dec (4 / 10))
   \<and> submits_f init_engine_f
         [(order_in_f ''limit'' ''sell'' (dec (1 / 10)) (Some (dec 100)), ''A''),
          (order_in_f ''limit'' ''sell'' (dec (3 / 10)) (Some (dec 101)), ''B'')]
       = fbtc empty_sd
           \<lparr>sd_keys = [Fin 100, Fin 101],
            sd_items = [(Fin 100, [fent ''A'' (dec (1 / 10))]),
                        (Fin 101, [fent ''B'' (dec (3 / 10))])]\<rparr>
           [fdoc ''A'' ''limit'' ''sell'' (dec (1 / 10)) (Some (Fin 100)) ''open'',
            fdoc ''B'' ''limit'' ''sell'' (dec (3 / 10)) (Some (Fin 101)) ''open''] []
   \<and> submit_order_f
       (submits_f init_engine_f
         [(order_in_f ''limit'' ''sell'' (dec (1 / 10)) (Some (dec 100)), ''A''),
          (order_in_f ''limit'' ''sell'' (dec (3 / 10)) (Some (dec 101)), ''B'')])
       (order_in_f ''fok'' ''buy'' (dec (4 / 10)) (Some (dec 101))) alice ''T''
     = Inr ([(''order_id'', FStr ''T''),
             (''trades'', FTrades [ftrd (Fin 100) (dec (1 / 10)) ''A'' ''T'' ''buy'',
                                   ftrd (Fin 101) (dec (3 / 10)) ''B'' ''T'' ''buy''])],
            fbtc empty_sd empty_sd
              [fdoc ''A'' ''limit'' ''sell'' (dec (1 / 10)) (Some (Fin 100)) ''filled'',
               fdoc ''B'' ''limit'' ''sell'' (dec (3 / 10)) (Some (Fin 101)) ''filled'',
               fdoc ''T'' ''fok'' ''buy'' (dec (4 / 10)) (Some (Fin 101)) ''cancelled'']
              [ftrd (Fin 100) (dec (1 / 10)) ''A'' ''T'' ''buy'',
               ftrd (Fin 101) (dec (3 / 10)) ''B'' ''T'' ''buy''])"
  by (simp add: feval_defs)

subsection \<open>The cancel request on exact decimals\<close>

text \<open>
  With prices that are numbers, a cancel request fails with \<open>NotFound\<close> when the
  identifier is unknown and
  with \<open>AlreadyTerminal\<close> when the order's status is \<^verbatim>\<open>filled\<close> or \<^verbatim>\<open>cancelled\<close>;
  otherwise it returns the identifier with the status \<^verbatim>\<open>cancelled\<close>, the order rests in no
  book afterwards (and every other order rests exactly where it did), its persisted status
  is \<^verbatim>\<open>cancelled\<close>, and a second cancel request for it, by any user, fails with
  \<open>AlreadyTerminal\<close>. The states are those reached from the empty engine by successful
  requests with fresh identifiers.
\<close>

theorem cancel_order_contract:
  assumes "reachable_by h st"
  shows "(find_one (orders_collection st) (c_order_id cancel) = None
            \<longrightarrow> cancel_order st cancel usr = Inl NotFound)
     \<and> (\<forall>d. find_one (orders_collection st) (c_order_id cancel) = Some d \<longrightarrow>
          (if d_status d \<in> set [''filled'', ''cancelled'']
           then cancel_order st cancel usr = Inl AlreadyTerminal
           else \<exists>st'. cancel_order st cancel usr
                       = Inr ([(''order_id'', JStr (c_order_id cancel)),
                               (''status'', JStr ''cancelled'')], st')
                  \<and> \<not> rests st' (c_order_id cancel)
                  \<and> (\<forall>j. j \<noteq> c_order_id cancel \<longrightarrow> rests st' j = rests st j)
                  \<and> map_option d_status (find_one (orders_collection st') (c_order_id cancel))
                      = Some ''cancelled''
                  \<and> (\<forall>usr'. cancel_order st' cancel usr' = Inl AlreadyTerminal)))"
proof -
  let ?i = "c_order_id cancel"
  have ok: "books_ok st" using reachable_books_ok [OF reachable_by_reachable [OF assms]] .
  have loc: "books_located st" using reachable_by_located [OF assms] .
  have 1: "find_one (orders_collection st) ?i = None \<longrightarrow> cancel_order st cancel usr = Inl NotFound"
    unfolding cancel_order_unfold NotFound_def by simp
  have 2: "cancel_order st cancel usr = Inl AlreadyTerminal"
    if "find_one (orders_collection st) ?i = Some d" "d_status d \<in> set [''filled'', ''cancelled'']" for d
    using that unfolding cancel_order_unfold AlreadyTerminal_def by simp
  have 3: "\<exists>st'. cancel_order st cancel usr
                       = Inr ([(''order_id'', JStr ?i), (''status'', JStr ''cancelled'')], st')
                  \<and> \<not> rests st' ?i
                  \<and> (\<forall>j. j \<noteq> ?i \<longrightarrow> rests st' j = rests st j)
                  \<and> map_option d_status (find_one (orders_collection st') ?i) = Some ''cancelled''
                  \<and> (\<forall>usr'. cancel_order st' cancel usr' = Inl AlreadyTerminal)"
    if d: "find_one (orders_collection st) ?i = Some d"
      and ns: "d_status d \<notin> set [''filled'', ''cancelled'']" for d
  proof -
    define st' where "st' = st\<lparr>order_books := (order_books st)(upper (d_symbol d) \<mapsto>
                        (if d_side d = ''buy''
                         then (book_of st (upper (d_symbol d)))
                                \<lparr>bids := remove_resting ?i (d_price d)
                                           (bids (book_of st (upper (d_symbol d))))\<rparr>
                         else (book_of st (upper (d_symbol d)))
                                \<lparr>asks := remove_resting ?i (d_price d)
                                           (asks (book_of st (upper (d_symbol d))))\<rparr>)),
                    orders_collection := update_one (orders_collection st) ?i
                               (\<lambda>d. d\<lparr>d_status := ''cancelled''\<rparr>)\<rparr>"
    have r: "cancel_order st cancel usr
             = Inr ([(''order_id'', JStr ?i), (''status'', JStr ''cancelled'')], st')"
      using d ns unfolding cancel_order_unfold st'_def by simp
    have f: "find_one (orders_collection st') ?i = Some (d\<lparr>d_status := ''cancelled''\<rparr>)"
      using d unfolding st'_def by (simp add: find_one_update_one)
    then have again: "cancel_order st' cancel usr' = Inl AlreadyTerminal" for usr'
      unfolding cancel_order_unfold AlreadyTerminal_def by simp
    from cancel_order_rests [OF ok loc d st'_def]
    have "\<not> rests st' ?i" "\<forall>j. j \<noteq> ?i \<longrightarrow> rests st' j = rests st j" by blast+
    then show ?thesis using r f again by simp
  qed
  show ?thesis using 1 2 3 by (auto simp del: set_simps)
qed

theorem cancel_order_contract_witness:
  "reachable_by [(order_in ''limit'' ''buy'' 1 (Some 99), ''X'')]
     (btc [(99, [ent ''X'' 1])] [] [doc ''X'' ''limit'' ''buy'' 1 (Some 99) ''open''] [])
   \<and> find_one (orders_collection
        (btc [(99, [ent ''X'' 1])] [] [doc ''X'' ''limit'' ''buy'' 1 (Some 99) ''open''] []))
        (c_order_id \<lparr>c_order_id = ''X''\<rparr>)
      = Some (doc ''X'' ''limit'' ''buy'' 1 (Some 99) ''open'')
   \<and> d_status (doc ''X'' ''limit'' ''buy'' 1 (Some 99) ''open'') \<notin> set [''filled'', ''cancelled'']
   \<and> rests (btc [(99, [ent ''X'' 1])] [] [doc ''X'' ''limit'' ''buy'' 1 (Some 99) ''open''] []) ''X''
   \<and> (\<exists>st'. cancel_order
          (btc [(99, [ent ''X'' 1])] [] [doc ''X'' ''limit'' ''buy'' 1 (Some 99) ''open''] [])
          \<lparr>c_order_id = ''X''\<rparr> alice
        = Inr ([(''order_id'', JStr ''X''), (''status'', JStr ''cancelled'')], st')
        \<and> \<not> rests st' ''X''
        \<and> cancel_order st' \<lparr>c_order_id = ''X''\<rparr> bob = Inl AlreadyTerminal)
   \<and> find_one (orders_collection
        (btc [(99, [ent ''X'' 1])] [] [doc ''X'' ''limit'' ''buy'' 1 (Some 99) ''open''] []))
        (c_order_id \<lparr>c_order_id = ''Y''\<rparr>) = None
   \<and> cancel_order
          (btc [(99, [ent ''X'' 1])] [] [doc ''X'' ''limit'' ''buy'' 1 (Some 99) ''open''] [])
          \<lparr>c_order_id = ''Y''\<rparr> alice = Inl NotFound"
proof -
  let ?st = "btc [(99, [ent ''X'' 1])] [] [doc ''X'' ''limit'' ''buy'' 1 (Some 99) ''open''] []"
  let ?d = "doc ''X'' ''limit'' ''buy'' 1 (Some 99) ''open''"
  have f: "find_one (orders_collection init_engine) ''X'' = None"
    by (simp add: init_engine_def)
  have h1: "submit_order init_engine (order_in ''limit'' ''buy'' 1 (Some 99)) alice ''X''
            = Inr ([(''order_id'', JStr ''X''), (''trades'', JTrades [])], ?st)"
    by (simp add: eval_defs)
  have r: "reachable_by [(order_in ''limit'' ''buy'' 1 (Some 99), ''X'')] ?st"
    using reachable_by.submit [OF reachable_by.start f h1] by simp
  have d: "find_one (orders_collection ?st) (c_order_id \<lparr>c_order_id = ''X''\<rparr>) = Some ?d"
    by (simp add: btc_def doc_def)
  have ns: "d_status ?d \<notin> set [''filled'', ''cancelled'']"
    by (simp add: doc_def)
  have n: "find_one (orders_collection ?st) (c_order_id \<lparr>c_order_id = ''Y''\<rparr>) = None"
    by (simp add: btc_def doc_def)
  have rs: "rests ?st ''X''"
    unfolding rests_def
    by (rule exI [of _ "''BTC-USD''"], rule exI [of _ "\<lparr>bids = [(99, [ent ''X'' 1])], asks = []\<rparr>"])
       (simp add: btc_def entries_def ent_def)
  have c: "\<exists>st'. cancel_order ?st \<lparr>c_order_id = ''X''\<rparr> alice
        = Inr ([(''order_id'', JStr ''X''), (''status'', JStr ''cancelled'')], st')
        \<and> \<not> rests st' ''X''
        \<and> cancel_order st' \<lparr>c_order_id = ''X''\<rparr> bob = Inl AlreadyTerminal"
    using cancel_order_contract [OF r, of "\<lparr>c_order_id = ''X''\<rparr>" alice] d ns
    by (simp del: set_simps) blast
  have nf: "cancel_order ?st \<lparr>c_order_id = ''Y''\<rparr> alice = Inl NotFound"
    using cancel_order_contract [OF r, of "\<lparr>c_order_id = ''Y''\<rparr>" alice] n by blast
  show ?thesis using r d ns rs c n nf by blast
qed

subsection \<open>Cancelling an order with a NaN price\<close>

text \<open>
  Claim C7 says that a cancel request for an order that is neither filled nor cancelled
  removes the resting order, sets its status to \<^verbatim>\<open>cancelled\<close> and returns the identifier
  with that status. For a limit order that rests at a NaN price, the price read back from
  the document is not \<^verbatim>\<open>in side_book\<close> (line 254), since a NaN equals no key; the removal
  of lines 255-261 is skipped, and lines 262-263 still persist and return \<^verbatim>\<open>cancelled\<close>.
  The order stays in the book: a market buy that comes next trades with it, and line 201
  sets the status of the cancelled order to \<^verbatim>\<open>partial\<close>.
\<close>

theorem cancel_keeps_nan_priced_order:
  "cancel_order_f
     (submits_f init_engine_f [(order_in_f ''limit'' ''sell'' (dec 1) (Some (NaN 1)), ''B'')])
     \<lparr>c_order_id = ''B''\<rparr> alice
   = Inr ([(''order_id'', FStr ''B''), (''status'', FStr ''cancelled'')],
          fbtc empty_sd \<lparr>sd_keys = [NaN 1], sd_items = [(NaN 1, [fent ''B'' (Fin 1)])]\<rparr>
            [fdoc ''B'' ''limit'' ''sell'' (Fin 1) (Some (NaN 1)) ''cancelled''] [])
   \<and> submit_order_f
        (fbtc empty_sd \<lparr>sd_keys = [NaN 1], sd_items = [(NaN 1, [fent ''B'' (Fin 1)])]\<rparr>
            [fdoc ''B'' ''limit'' ''sell'' (Fin 1) (Some (NaN 1)) ''cancelled''] [])
        (order_in_f ''market'' ''buy'' (dec (1 / 2)) None) alice ''T''
      = Inr ([(''order_id'', FStr ''T''),
              (''trades'', FTrades [ftrd (NaN 1) (Fin (1 / 2)) ''B'' ''T'' ''buy''])],
             fbtc empty_sd
               \<lparr>sd_keys = [NaN 1], sd_items = [(NaN 1, [fent ''B'' (Fin (1 / 2))])]\<rparr>
               [fdoc ''B'' ''limit'' ''sell'' (Fin (1 / 2)) (Some (NaN 1)) ''partial'',
                fdoc ''T'' ''market'' ''buy'' (Fin (1 / 2)) None ''filled'']
               [ftrd (NaN 1) (Fin (1 / 2)) ''B'' ''T'' ''buy''])"
  by (simp add: feval_defs)

subsection \<open>Quantities never go negative\<close>

text \<open>
  Claim C8, under exact quantities. In every state reached with fresh identifiers, and
  after each trade of the trade log (every prefix of it): for every submitted order the
  quantity executed against it as maker and the quantity it executed as taker are
  non-negative and together at most its original quantity, so neither the sum of the trades
  against a maker exceeds its original quantity nor does a taker's remainder go below zero;
  every trade has a positive quantity; every resting quantity is positive. Inside the loop,
  one execution from a well-formed book with non-negative \<^verbatim>\<open>remaining\<close> leaves
  \<^verbatim>\<open>remaining\<close> non-negative and the book well formed, that is, with positive maker
  quantities only.
\<close>

theorem quantities_exact:
  assumes "reachable_by h st"
  shows "(\<forall>(order, i) \<in> set h. \<forall>n.
            0 \<le> made (take n (trades_collection st)) i
          \<and> 0 \<le> taken (take n (trades_collection st)) i
          \<and> made (take n (trades_collection st)) i + taken (take n (trades_collection st)) i
              \<le> in_quantity order)
     \<and> (\<forall>t \<in> set (trades_collection st). 0 < t_quantity t)
     \<and> (\<forall>symbol b e. order_books st symbol = Some b
           \<longrightarrow> e \<in> set (entries (bids b) @ entries (asks b)) \<longrightarrow> 0 < e_quantity e)
     \<and> (\<forall>symbol side order_id p maker rest s.
           book_ok (m_book s) \<and> 0 \<le> m_remaining s
           \<and> map_of (opposite side (m_book s)) p = Some (maker # rest)
           \<longrightarrow> 0 \<le> m_remaining (fill symbol side order_id p maker rest s)
             \<and> book_ok (m_book (fill symbol side order_id p maker rest s)))"
proof -
  let ?ts = "trades_collection st"
  note L = ledger_okD [OF reachable_by_ledger [OF assms]]
  have pos: "\<forall>t \<in> set ?ts. 0 < t_quantity t" using L(1) by blast
  have 1: "0 \<le> made (take n ?ts) i \<and> 0 \<le> taken (take n ?ts) i
          \<and> made (take n ?ts) i + taken (take n ?ts) i \<le> in_quantity order"
    if "(order, i) \<in> set h" for order i n
  proof -
    have "orig h i = Some (in_quantity order)" using orig_mem [OF L(5) that] .
    then have "made ?ts i + taken ?ts i \<le> in_quantity order"
      using L(3) unfolding traded_def by blast
    then show ?thesis
      using made_take_le [OF pos, of n i] taken_take_le [OF pos, of n i] by linarith
  qed
  have ok: "books_ok st" using reachable_books_ok [OF reachable_by_reachable [OF assms]] .
  have 3: "0 < e_quantity e"
    if "order_books st symbol = Some b" "e \<in> set (entries (bids b) @ entries (asks b))" for symbol b e
  proof -
    have "book_ok b" using ok that(1) unfolding books_ok_def by blast
    then show ?thesis using that(2) unfolding book_ok_def sd_ok_def entries_def by fastforce
  qed
  have 4: "0 \<le> m_remaining (fill symbol side order_id p maker rest s)
             \<and> book_ok (m_book (fill symbol side order_id p maker rest s))"
    if "book_ok (m_book s)" "0 \<le> m_remaining s"
      "map_of (opposite side (m_book s)) p = Some (maker # rest)"
    for symbol side order_id p maker rest s
    using fill_book_ok [OF that(1,3)] that(2) by (simp add: fill_remaining)
  show ?thesis using 1 pos 3 4 by blast
qed

theorem quantities_exact_witness:
  "reachable_by [(order_in ''limit'' ''sell'' 1 (Some 100), ''A''),
                 (order_in ''limit'' ''sell'' 1 (Some 100), ''B''),
                 (order_in ''market'' ''buy'' (3 / 2) None, ''C'')]
     (btc [] [(100, [ent ''B'' (1 / 2)])]
        [doc ''A'' ''limit'' ''sell'' 1 (Some 100) ''filled'',
         doc ''B'' ''limit'' ''sell'' (1 / 2) (Some 100) ''partial'',
         doc ''C'' ''market'' ''buy'' (3 / 2) None ''filled'']
        [trd 100 1 ''A'' ''C'' ''buy'', trd 100 (1 / 2) ''B'' ''C'' ''buy''])
   \<and> made [trd 100 1 ''A'' ''C'' ''buy'', trd 100 (1 / 2) ''B'' ''C'' ''buy''] ''B'' = 1 / 2
   \<and> taken [trd 100 1 ''A'' ''C'' ''buy'', trd 100 (1 / 2) ''B'' ''C'' ''buy''] ''C'' = 3 / 2
   \<and> (\<forall>n. made (take n [trd 100 1 ''A'' ''C'' ''buy'', trd 100 (1 / 2) ''B'' ''C'' ''buy'']) ''B''
          + taken (take n [trd 100 1 ''A'' ''C'' ''buy'', trd 100 (1 / 2) ''B'' ''C'' ''buy'']) ''B''
          \<le> in_quantity (order_in ''limit'' ''sell'' 1 (Some 100)))
   \<and> book_ok (m_book (start_state
        (btc [] [(100, [ent ''A'' 1, ent ''B'' 1])]
          [doc ''A'' ''limit'' ''sell'' 1 (Some 100) ''open'', doc ''B'' ''limit'' ''sell'' 1 (Some 100) ''open''] [])
        (order_in ''market'' ''buy'' (3 / 2) None) alice ''C''))
   \<and> map_of (opposite ''buy'' (m_book (start_state
        (btc [] [(100, [ent ''A'' 1, ent ''B'' 1])]
          [doc ''A'' ''limit'' ''sell'' 1 (Some 100) ''open'', doc ''B'' ''limit'' ''sell'' 1 (Some 100) ''open''] [])
        (order_in ''market'' ''buy'' (3 / 2) None) alice ''C''))) 100
       = Some (ent ''A'' 1 # [ent ''B'' 1])
   \<and> 0 \<le> m_remaining (fill ''BTC-USD'' ''buy'' ''C'' 100 (ent ''A'' 1) [ent ''B'' 1]
        (start_state
          (btc [] [(100, [ent ''A'' 1, ent ''B'' 1])]
            [doc ''A'' ''limit'' ''sell'' 1 (Some 100) ''open'', doc ''B'' ''limit'' ''sell'' 1 (Some 100) ''open''] [])
          (order_in ''market'' ''buy'' (3 / 2) None) alice ''C''))"
proof -
  let ?oa = "order_in ''limit'' ''sell'' 1 (Some 100)"
  let ?oc = "order_in ''market'' ''buy'' (3 / 2) None"
  let ?st1 = "btc [] [(100, [ent ''A'' 1])] [doc ''A'' ''limit'' ''sell'' 1 (Some 100) ''open''] []"
  let ?st2 = "btc [] [(100, [ent ''A'' 1, ent ''B'' 1])]
          [doc ''A'' ''limit'' ''sell'' 1 (Some 100) ''open'', doc ''B'' ''limit'' ''sell'' 1 (Some 100) ''open''] []"
  let ?ts = "[trd 100 1 ''A'' ''C'' ''buy'', trd 100 (1 / 2) ''B'' ''C'' ''buy'']"
  let ?st3 = "btc [] [(100, [ent ''B'' (1 / 2)])]
        [doc ''A'' ''limit'' ''sell'' 1 (Some 100) ''filled'',
         doc ''B'' ''limit'' ''sell'' (1 / 2) (Some 100) ''partial'',
         doc ''C'' ''market'' ''buy'' (3 / 2) None ''filled''] ?ts"
  let ?s0 = "start_state ?st2 ?oc alice ''C''"
  have f1: "find_one (orders_collection init_engine) ''A'' = None"
    and f2: "find_one (orders_collection ?st1) ''B'' = None"
    and f3: "find_one (orders_collection ?st2) ''C'' = None"
    by (simp_all add: init_engine_def btc_def doc_def)
  have h1: "submit_order init_engine ?oa alice ''A''
            = Inr ([(''order_id'', JStr ''A''), (''trades'', JTrades [])], ?st1)"
    by (simp add: eval_defs)
  have h2: "submit_order ?st1 ?oa alice ''B''
            = Inr ([(''order_id'', JStr ''B''), (''trades'', JTrades [])], ?st2)"
    by (simp add: eval_defs)
  have h3: "submit_order ?st2 ?oc alice ''C''
            = Inr ([(''order_id'', JStr ''C''), (''trades'', JTrades ?ts)], ?st3)"
    by (simp add: eval_defs)
  have r: "reachable_by [(?oa, ''A''), (?oa, ''B''), (?oc, ''C'')] ?st3"
    using reachable_by.submit [OF reachable_by.submit [OF reachable_by.submit
            [OF reachable_by.start f1 h1] f2 h2] f3 h3]
    by simp
  have ts: "trades_collection ?st3 = ?ts" by (simp add: btc_def)
  have m: "made ?ts ''B'' = 1 / 2" and t: "taken ?ts ''C'' = 3 / 2"
    by (simp_all add: made_def taken_def trd_def)
  have b: "book_ok (m_book ?s0)"
    and q: "map_of (opposite ''buy'' (m_book ?s0)) 100 = Some (ent ''A'' 1 # [ent ''B'' 1])"
    and r0: "0 \<le> m_remaining ?s0"
    by (simp_all add: eval_defs)
  note Q = quantities_exact [OF r, unfolded ts]
  have "(?oa, ''B'') \<in> set [(?oa, ''A''), (?oa, ''B''), (?oc, ''C'')]" by simp
  with Q have p: "\<forall>n. made (take n ?ts) ''B'' + taken (take n ?ts) ''B'' \<le> in_quantity ?oa"
    by blast
  have "0 \<le> m_remaining (fill ''BTC-USD'' ''buy'' ''C'' 100 (ent ''A'' 1) [ent ''B'' 1] ?s0)"
    using Q b q r0 by blast
  then show ?thesis using r m t p b q by blast
qed

subsection \<open>Cancellation does not look at the caller\<close>



end
